theory Spec2Isabelle
  imports Complex_Main
begin

section \<open>JavaScript values used by the detector\<close>

text \<open>
  A JavaScript string is a sequence of UTF-16 code units; a code unit is modelled by its
  numeric value. \<open>js_str\<close> writes the ASCII literals of the source.
\<close>

type_synonym jsstring = "nat list"

definition js_str :: "string \<Rightarrow> jsstring" where
  "js_str s = map of_char s"

text \<open>
  A JavaScript number that the scorer can produce: the two infinities, NaN, or a finite
  value. Finite arithmetic is modelled exactly, on rationals (the rounding of IEEE doubles
  is not modelled); what division by zero and operations on NaN and the infinities give is
  modelled as IEEE 754 and ECMAScript define it. Signed zeros are not distinguished: every
  divisor in the source is a length, hence \<open>+0\<close> when it is zero. Where the exact value
  before \<open>Math.round\<close> is a tie, or next to one, the rounding of the doubles can move the
  score by one: for a total weight of 29 on 200 words the exact value is 72.5 and the
  score here is 73, where the doubles give a value just below 72.5 and the score 72.
\<close>

datatype jsnum = NaN | PosInf | NegInf | Fin rat

fun js_div :: "jsnum \<Rightarrow> jsnum \<Rightarrow> jsnum" where
  "js_div NaN y = NaN"
| "js_div x NaN = NaN"
| "js_div (Fin a) (Fin b) =
     (if b = 0 then (if a = 0 then NaN else if 0 < a then PosInf else NegInf)
      else Fin (a / b))"
| "js_div (Fin a) y = Fin 0"
| "js_div x (Fin b) =
     (if 0 \<le> b then x else (case x of PosInf \<Rightarrow> NegInf | NegInf \<Rightarrow> PosInf | z \<Rightarrow> z))"
| "js_div x y = NaN"

fun js_mul :: "jsnum \<Rightarrow> jsnum \<Rightarrow> jsnum" where
  "js_mul NaN y = NaN"
| "js_mul x NaN = NaN"
| "js_mul (Fin a) (Fin b) = Fin (a * b)"
| "js_mul PosInf (Fin b) = (if b = 0 then NaN else if 0 < b then PosInf else NegInf)"
| "js_mul NegInf (Fin b) = (if b = 0 then NaN else if 0 < b then NegInf else PosInf)"
| "js_mul (Fin a) PosInf = (if a = 0 then NaN else if 0 < a then PosInf else NegInf)"
| "js_mul (Fin a) NegInf = (if a = 0 then NaN else if 0 < a then NegInf else PosInf)"
| "js_mul PosInf PosInf = PosInf"
| "js_mul NegInf NegInf = PosInf"
| "js_mul x y = NegInf"

text \<open>\<open>Math.round\<close>: the nearest integer, a tie going towards \<open>+\<infinity>\<close>.\<close>

fun js_round :: "jsnum \<Rightarrow> jsnum" where
  "js_round (Fin a) = Fin (of_int \<lfloor>a + 1 / 2\<rfloor>)"
| "js_round x = x"

text \<open>\<open>Math.min\<close> of two numbers: NaN as soon as one argument is NaN.\<close>

fun js_min :: "jsnum \<Rightarrow> jsnum \<Rightarrow> jsnum" where
  "js_min NaN y = NaN"
| "js_min x NaN = NaN"
| "js_min NegInf y = NegInf"
| "js_min x NegInf = NegInf"
| "js_min PosInf y = y"
| "js_min x PosInf = x"
| "js_min (Fin a) (Fin b) = Fin (min a b)"

text \<open>The comparison \<open>x <= y\<close>: false as soon as one operand is NaN.\<close>

fun js_le :: "jsnum \<Rightarrow> jsnum \<Rightarrow> bool" where
  "js_le NaN y = False"
| "js_le x NaN = False"
| "js_le NegInf y = True"
| "js_le x PosInf = True"
| "js_le (Fin a) (Fin b) = (a \<le> b)"
| "js_le x y = False"

section \<open>Score labels\<close>

text \<open>
  \<open>getScoreLabel\<close> returns one of five string literals. Each literal of the source file
  starts with a few decorative code units (an emoji, stored in the file as the code units
  below) and a space, followed by the name of the band.
\<close>

definition label_very_human :: jsstring where
  "label_very_human = [226, 339, 8230] @ js_str '' Very Human''"

definition label_mostly_human :: jsstring where
  "label_mostly_human = [240, 376, 8216] @ js_str '' Mostly Human''"

definition label_some_ai :: jsstring where
  "label_some_ai = [226, 353, 160, 239, 184] @ js_str '' Some AI Patterns''"

definition label_likely_ai :: jsstring where
  "label_likely_ai = [240, 376, 164, 8211] @ js_str '' Likely AI''"

definition label_very_ai :: jsstring where
  "label_very_ai = [240, 376, 353, 168] @ js_str '' Very AI-like''"

definition getScoreLabel :: "jsnum \<Rightarrow> jsstring" where
  "getScoreLabel score =
     (if js_le score (Fin 10) then label_very_human
      else if js_le score (Fin 25) then label_mostly_human
      else if js_le score (Fin 50) then label_some_ai
      else if js_le score (Fin 75) then label_likely_ai
      else label_very_ai)"

section \<open>Regular expressions\<close>

text \<open>
  The patterns of the catalogue are regular expression literals. Their syntax tree has the
  constructs the catalogue uses: single-character atoms, the word-boundary assertion
  \<open>\b\<close>, concatenation, alternation and the greedy quantifiers \<open>*\<close> and \<open>?\<close>;
  \<open>r+\<close> is \<open>r\<close> followed by \<open>r*\<close>. Groups only structure the pattern (the source
  reads nothing but \<open>match[0]\<close> and \<open>match.index\<close>), so they are not represented.
\<close>

datatype atom =
    Lit nat             \<comment> \<open>a literal character\<close>
  | Space               \<comment> \<open>\<open>\s\<close>\<close>
  | WordCh              \<comment> \<open>\<open>\w\<close>\<close>
  | AnyCh               \<comment> \<open>\<open>.\<close>\<close>
  | OneOf "nat list"    \<comment> \<open>a class \<open>[...]\<close> of literal characters\<close>
  | NoneOf "nat list"   \<comment> \<open>a negated class \<open>[^...]\<close> of literal characters\<close>

datatype regex =
    Eps
  | Ch atom
  | WordB
  | Cat regex regex
  | Alt regex regex
  | Star regex
  | Opt regex

abbreviation Plus :: "regex \<Rightarrow> regex" where
  "Plus r \<equiv> Cat r (Star r)"

text \<open>A regular expression object: the pattern and its \<open>i\<close> flag (every literal of the
  catalogue has the \<open>g\<close> flag, which \<open>matchAll\<close> requires).\<close>

record regexp =
  source :: regex
  ignoreCase :: bool

definition is_space :: "nat \<Rightarrow> bool" where
  "is_space c \<longleftrightarrow>
     c \<in> set [9, 10, 11, 12, 13, 32, 160, 5760, 8232, 8233, 8239, 8287, 12288, 65279]
     \<or> (8192 \<le> c \<and> c \<le> 8202)"

definition is_word :: "nat \<Rightarrow> bool" where
  "is_word c \<longleftrightarrow>
     (48 \<le> c \<and> c \<le> 57) \<or> (65 \<le> c \<and> c \<le> 90) \<or> c = 95 \<or> (97 \<le> c \<and> c \<le> 122)"

definition is_line_terminator :: "nat \<Rightarrow> bool" where
  "is_line_terminator c \<longleftrightarrow> c \<in> set [10, 13, 8232, 8233]"

text \<open>
  Canonicalisation under the \<open>i\<close> flag (without the \<open>u\<close> flag): a character is mapped to
  its upper case, except that a character outside ASCII is never mapped into ASCII. Every
  pattern with the \<open>i\<close> flag consists of ASCII characters only, so whether a character
  matches depends only on the ASCII part of the mapping, which is what is modelled; other
  characters are mapped to themselves.
\<close>

definition canonicalize :: "nat \<Rightarrow> nat" where
  "canonicalize c = (if 97 \<le> c \<and> c \<le> 122 then c - 32 else c)"

definition chr_eq :: "bool \<Rightarrow> nat \<Rightarrow> nat \<Rightarrow> bool" where
  "chr_eq ci a b = (if ci then canonicalize a = canonicalize b else a = b)"

fun atom_match :: "bool \<Rightarrow> atom \<Rightarrow> nat \<Rightarrow> bool" where
  "atom_match ci (Lit c) x = chr_eq ci c x"
| "atom_match ci Space x = is_space x"
| "atom_match ci WordCh x = is_word x"
| "atom_match ci AnyCh x = (\<not> is_line_terminator x)"
| "atom_match ci (OneOf cs) x = list_ex (\<lambda>c. chr_eq ci c x) cs"
| "atom_match ci (NoneOf cs) x = (\<not> list_ex (\<lambda>c. chr_eq ci c x) cs)"

text \<open>
  The matcher works on a cursor into the subject: the code unit before the position (if
  there is one) and the code units from the position on.
\<close>

type_synonym cursor = "nat option \<times> jsstring"

fun is_word_opt :: "nat option \<Rightarrow> bool" where
  "is_word_opt None = False"
| "is_word_opt (Some c) = is_word c"

fun next_unit :: "jsstring \<Rightarrow> nat option" where
  "next_unit [] = None"
| "next_unit (x # xs) = Some x"

text \<open>
  \<open>ends ci r cur\<close> lists the cursors at which a match of \<open>r\<close> starting at \<open>cur\<close> can
  end, in the order in which the backtracking matcher of ECMAScript tries them: the first
  alternative before the second, one more iteration of a greedy quantifier before
  stopping. An iteration of \<open>*\<close> or \<open>?\<close> that consumes nothing is discarded, as ECMAScript
  requires; since the matcher only moves forward, consuming something is the same as
  leaving a shorter rest.
\<close>

fun ends :: "bool \<Rightarrow> regex \<Rightarrow> cursor \<Rightarrow> cursor list" where
  "ends ci Eps cur = [cur]"
| "ends ci (Ch a) (p, []) = []"
| "ends ci (Ch a) (p, x # xs) = (if atom_match ci a x then [(Some x, xs)] else [])"
| "ends ci WordB (p, xs) =
     (if is_word_opt p \<noteq> is_word_opt (next_unit xs) then [(p, xs)] else [])"
| "ends ci (Cat r1 r2) cur = concat (map (ends ci r2) (ends ci r1 cur))"
| "ends ci (Alt r1 r2) cur = ends ci r1 cur @ ends ci r2 cur"
| "ends ci (Star r) cur =
     concat (map (\<lambda>c. if length (snd c) < length (snd cur) then ends ci (Star r) c else [])
                 (ends ci r cur)) @ [cur]"
| "ends ci (Opt r) cur =
     filter (\<lambda>c. length (snd c) < length (snd cur)) (ends ci r cur) @ [cur]"

text \<open>
  \<open>String.prototype.matchAll\<close> with a global regular expression whose \<open>lastIndex\<close> is 0
  (no code of the program writes \<open>lastIndex\<close>; \<open>matchAll\<close> itself works on a copy of the
  regular expression). Starting at the current index, the first index at which the
  pattern matches is looked for, up to and including the end of the string; the match
  found there is the first one in the matcher's order. The search goes on at the end of
  the match, or one code unit further when the match is empty. Each match is recorded
  as its index and its text.
\<close>

function matchAll_from :: "regexp \<Rightarrow> nat \<Rightarrow> cursor \<Rightarrow> (nat \<times> jsstring) list" where
  "matchAll_from re i (p, xs) =
     (case ends (ignoreCase re) (source re) (p, xs) of
        [] \<Rightarrow> (case xs of [] \<Rightarrow> [] | x # xs' \<Rightarrow> matchAll_from re (Suc i) (Some x, xs'))
      | c # _ \<Rightarrow>
          (i, take (length xs - length (snd c)) xs) #
          (if length (snd c) < length xs
           then matchAll_from re (i + (length xs - length (snd c))) c
           else (case xs of [] \<Rightarrow> [] | x # xs' \<Rightarrow> matchAll_from re (Suc i) (Some x, xs'))))"
  by pat_completeness auto
termination
  by (relation "measure (\<lambda>(re, i, c). length (snd c))") auto

definition matchAll :: "jsstring \<Rightarrow> regexp \<Rightarrow> (nat \<times> jsstring) list" where
  "matchAll text re = matchAll_from re 0 (None, text)"

section \<open>The pattern catalogue\<close>

text \<open>Notation for writing the regular expression literals of the source.\<close>

definition lits :: "nat list \<Rightarrow> regex" where
  "lits cs = foldr (\<lambda>c r. Cat (Ch (Lit c)) r) cs Eps"

definition lit :: "string \<Rightarrow> regex" where
  "lit s = lits (js_str s)"

definition seq :: "regex list \<Rightarrow> regex" where
  "seq rs = foldr Cat rs Eps"

fun alts :: "regex list \<Rightarrow> regex" where
  "alts [] = Eps"
| "alts [r] = r"
| "alts (r # rs) = Alt r (alts rs)"

definition g :: "regex \<Rightarrow> regexp" where
  "g r = \<lparr>source = r, ignoreCase = False\<rparr>"

definition gi :: "regex \<Rightarrow> regexp" where
  "gi r = \<lparr>source = r, ignoreCase = True\<rparr>"

text \<open>
  One category of the catalogue (a value of the object \<open>PATTERNS\<close>): its fields are
  \<open>name\<close>, \<open>description\<close>, \<open>weight\<close> and \<open>patterns\<close> in the source.
\<close>

record category =
  c_name :: string
  c_description :: string
  c_weight :: nat
  c_patterns :: "regexp list"

text \<open>
  The thirteen categories, with the regular expression literals in the order of the
  source. The first pattern of \<open>em_dash\<close> is the three code units that the source file
  holds between the slashes.
\<close>

definition inflated_significance :: category where
  \<open>inflated_significance = \<lparr>
     c_name = ''Inflated Significance'',
     c_description = ''Puffs up importance with vague significance claims'',
     c_weight = 3,
     c_patterns = [
       gi (seq [WordB, lit ''stand'', Opt (lit ''s''), Plus (Ch Space), lit ''as'', WordB]),
       gi (seq [WordB, lit ''serve'', Opt (lit ''s''), Plus (Ch Space), lit ''as'', WordB]),
       gi (seq [WordB, alts [lit ''is'', lit ''are''], Plus (Ch Space), lit ''a'',
           Plus (Ch Space), lit ''testament'', WordB]),
       gi (seq [WordB, lit ''underscore'', Opt (lit ''s''), Plus (Ch Space), alts [lit ''its'',
           lit ''the'', lit ''their''], Plus (Ch Space), lit ''importance'', WordB]),
       gi (seq [WordB, lit ''highlight'', Opt (lit ''s''), Plus (Ch Space), alts [lit ''its'',
           lit ''the'', lit ''their''], Plus (Ch Space), lit ''significance'', WordB]),
       gi (seq [WordB, lit ''reflect'', Opt (lit ''s''), Plus (Ch Space), lit ''broader'',
           WordB]),
       gi (seq [WordB, lit ''symboliz'', alts [seq [lit ''e'', Opt (lit ''s'')], lit ''ing''],
           Plus (Ch Space), alts [lit ''its'', lit ''the'', lit ''their''], Plus (Ch Space),
           alts [lit ''ongoing'', lit ''enduring'', lit ''lasting''], WordB]),
       gi (seq [WordB, lit ''setting'', Plus (Ch Space), lit ''the'', Plus (Ch Space),
           lit ''stage'', Plus (Ch Space), lit ''for'', WordB]),
       gi (seq [WordB, lit ''marking'', Plus (Ch Space), lit ''a'', Plus (Ch Space),
           alts [lit ''pivotal'', lit ''key'', lit ''crucial''], Plus (Ch Space),
           lit ''moment'', WordB]),
       gi (seq [WordB, lit ''represent'', Opt (lit ''s''), Plus (Ch Space), lit ''a'',
           Plus (Ch Space), lit ''shift'', WordB]),
       gi (seq [WordB, lit ''evolving'', Plus (Ch Space), lit ''landscape'', WordB]),
       gi (seq [WordB, lit ''indelible'', Plus (Ch Space), lit ''mark'', WordB]),
       gi (seq [WordB, lit ''deeply'', Plus (Ch Space), lit ''rooted'', WordB])
     ]\<rparr>\<close>

definition superficial_ing :: category where
  \<open>superficial_ing = \<lparr>
     c_name = ''Superficial -ing Endings'',
     c_description = ''Tacks -ing phrases for fake depth'',
     c_weight = 2,
     c_patterns = [
       gi (seq [lit '','', Star (Ch Space), alts [lit ''highlighting'', lit ''underscoring'',
           lit ''emphasizing'', lit ''reflecting'', lit ''symbolizing'', lit ''showcasing'',
           lit ''encompassing'', lit ''cultivating'', lit ''fostering''], Plus (Ch Space)]),
       gi (seq [lit '','', Star (Ch Space), lit ''ensuring'', Plus (Ch Space),
           Opt (seq [lit ''that'', Plus (Ch Space)]), Plus (Ch (NoneOf (js_str '',.''))),
           Ch (OneOf (js_str '',.''))]),
       gi (seq [lit '','', Star (Ch Space), lit ''contributing'', Plus (Ch Space), lit ''to'',
           Plus (Ch Space)])
     ]\<rparr>\<close>

definition promotional :: category where
  \<open>promotional = \<lparr>
     c_name = ''Promotional Language'',
     c_description = ''Advertisement-like, non-neutral tone'',
     c_weight = 3,
     c_patterns = [
       gi (seq [WordB, lit ''boast'', Opt (lit ''s''), Plus (Ch Space), lit ''a'', WordB]),
       gi (seq [WordB, lit ''vibrant'', WordB]),
       gi (seq [WordB, lit ''profound'', WordB]),
       gi (seq [WordB, lit ''groundbreaking'', WordB]),
       gi (seq [WordB, lit ''renowned'', WordB]),
       gi (seq [WordB, lit ''breathtaking'', WordB]),
       gi (seq [WordB, lit ''must-visit'', WordB]),
       gi (seq [WordB, lit ''stunning'', WordB]),
       gi (seq [WordB, lit ''nestled'', WordB]),
       gi (seq [WordB, lit ''in'', Plus (Ch Space), lit ''the'', Plus (Ch Space),
           lit ''heart'', Plus (Ch Space), lit ''of'', WordB]),
       gi (seq [WordB, lit ''rich'', Plus (Ch Space), Opt (seq [lit ''cultural'',
           Plus (Ch Space)]), lit ''heritage'', WordB]),
       gi (seq [WordB, lit ''natural'', Plus (Ch Space), lit ''beauty'', WordB]),
       gi (seq [WordB, lit ''exemplif'', alts [lit ''y'', lit ''ies''], WordB]),
       gi (seq [WordB, lit ''commitment'', Plus (Ch Space), lit ''to'', WordB])
     ]\<rparr>\<close>

definition ai_vocabulary :: category where
  \<open>ai_vocabulary = \<lparr>
     c_name = ''AI Vocabulary'',
     c_description = ''Words overused by AI models'',
     c_weight = 2,
     c_patterns = [
       g (seq [WordB, lit ''Additionally'', WordB]),
       gi (seq [WordB, lit ''align'', Plus (Ch Space), lit ''with'', WordB]),
       gi (seq [WordB, lit ''crucial'', WordB]),
       gi (seq [WordB, lit ''delve'', WordB]),
       gi (seq [WordB, lit ''enduring'', WordB]),
       gi (seq [WordB, lit ''enhance'', Opt (Ch (OneOf (js_str ''ds''))), WordB]),
       gi (seq [WordB, lit ''fostering'', WordB]),
       gi (seq [WordB, lit ''garner'', Opt (Ch (OneOf (js_str ''s''))), WordB]),
       gi (seq [WordB, lit ''interplay'', WordB]),
       gi (seq [WordB, lit ''intricat'', alts [lit ''e'', lit ''es'', lit ''ies''], WordB]),
       gi (seq [WordB, lit ''landscape'', WordB]),
       gi (seq [WordB, lit ''pivotal'', WordB]),
       gi (seq [WordB, lit ''showcas'', alts [lit ''e'', lit ''es'', lit ''ing''], WordB]),
       gi (seq [WordB, lit ''tapestry'', WordB]),
       gi (seq [WordB, lit ''underscore'', Opt (Ch (OneOf (js_str ''sd''))), WordB]),
       gi (seq [WordB, lit ''valuable'', WordB]),
       gi (seq [WordB, lit ''seamless'', Opt (lit ''ly''), WordB]),
       gi (seq [WordB, lit ''robust'', WordB]),
       gi (seq [WordB, lit ''leverag'', alts [lit ''e'', lit ''es'', lit ''ing''], WordB]),
       gi (seq [WordB, lit ''facilitat'', alts [lit ''e'', lit ''es'', lit ''ing''], WordB]),
       gi (seq [WordB, lit ''optimiz'', alts [lit ''e'', lit ''es'', lit ''ing''], WordB]),
       gi (seq [WordB, lit ''holistic'', WordB]),
       gi (seq [WordB, lit ''synerg'', alts [lit ''y'', lit ''ies'', lit ''istic''], WordB]),
       gi (seq [WordB, lit ''paradigm'', WordB]),
       gi (seq [WordB, lit ''meticulously'', WordB]),
       gi (seq [WordB, lit ''comprehensive'', WordB]),
       gi (seq [WordB, lit ''navigat'', alts [lit ''e'', lit ''es'', lit ''ing''], WordB]),
       gi (seq [WordB, lit ''unravel'', WordB]),
       gi (seq [WordB, lit ''embark'', Plus (Ch Space), lit ''on'', WordB]),
       gi (seq [WordB, lit ''delve'', Plus (Ch Space), lit ''into'', WordB]),
       gi (seq [WordB, lit ''testament'', WordB]),
       gi (seq [WordB, lit ''undeniably'', WordB]),
       gi (seq [WordB, lit ''intricate'', WordB]),
       gi (seq [WordB, lit ''pivot'', WordB])
     ]\<rparr>\<close>

definition vague_attribution :: category where
  \<open>vague_attribution = \<lparr>
     c_name = ''Vague Attributions'',
     c_description = ''Attributes claims to unnamed experts'',
     c_weight = 3,
     c_patterns = [
       gi (seq [WordB, alts [lit ''Industry'', lit ''Some'', lit ''Many''], Plus (Ch Space),
           lit ''expert'', Opt (lit ''s''), Plus (Ch Space), alts [lit ''believe'',
           lit ''argue'', lit ''suggest'', lit ''say''], WordB]),
       gi (seq [WordB, lit ''Observers'', Plus (Ch Space), lit ''have'', Plus (Ch Space),
           lit ''cited'', WordB]),
       gi (seq [WordB, alts [lit ''Some'', lit ''Many''], Plus (Ch Space), lit ''critics'',
           Plus (Ch Space), lit ''argue'', WordB]),
       gi (seq [WordB, lit ''several'', Plus (Ch Space), alts [lit ''sources'',
           lit ''publications''], WordB]),
       gi (seq [WordB, lit ''widely'', Plus (Ch Space), alts [lit ''believed'',
           lit ''considered'', lit ''regarded''], WordB])
     ]\<rparr>\<close>

definition negative_parallelism :: category where
  \<open>negative_parallelism = \<lparr>
     c_name = ''Negative Parallelism'',
     c_description = ''Overused "not only...but also" constructions'',
     c_weight = 2,
     c_patterns = [
       gi (seq [WordB, lit ''Not'', Plus (Ch Space), lit ''only'', WordB, Star (Ch AnyCh),
           WordB, lit ''but'', Plus (Ch Space), Opt (seq [lit ''also'', Plus (Ch Space)])]),
       gi (seq [WordB, lit ''It'', Opt (lits [39]), lit ''s'', Plus (Ch Space), lit ''not'',
           Plus (Ch Space), lit ''just'', Plus (Ch Space), lit ''about'', WordB,
           Star (Ch AnyCh), WordB, lit ''it'', Opt (lits [39]), lit ''s'', Plus (Ch Space),
           Opt (seq [lit ''about'', Plus (Ch Space)])]),
       gi (seq [WordB, lit ''It'', Opt (lits [39]), lit ''s'', Plus (Ch Space), lit ''not'',
           Plus (Ch Space), alts [lit ''merely'', lit ''simply''], WordB, Star (Ch AnyCh),
           WordB, lit ''it'', Opt (lits [39]), lit ''s'', WordB])
     ]\<rparr>\<close>

definition rule_of_three :: category where
  \<open>rule_of_three = \<lparr>
     c_name = ''Rule of Three'',
     c_description = ''Forced groupings of three items'',
     c_weight = 1,
     c_patterns = [
       gi (seq [WordB, Plus (Ch WordCh), lit '','', Plus (Ch Space), Plus (Ch WordCh),
           lit '','', Plus (Ch Space), lit ''and'', Plus (Ch Space), Plus (Ch WordCh), WordB])
     ]\<rparr>\<close>

definition em_dash :: category where
  \<open>em_dash = \<lparr>
     c_name = ''Em Dash Overuse'',
     c_description = ''Excessive use of em dashes'',
     c_weight = 1,
     c_patterns = [
       g (lits [226, 8364, 8221]),
       g (lit ''--'')
     ]\<rparr>\<close>

definition copula_avoidance :: category where
  \<open>copula_avoidance = \<lparr>
     c_name = ''Copula Avoidance'',
     c_description = ''Substitutes "serves as" for simple "is"'',
     c_weight = 2,
     c_patterns = [
       gi (seq [WordB, lit ''serve'', Opt (lit ''s''), Plus (Ch Space), lit ''as'',
           Plus (Ch Space), alts [lit ''a'', lit ''an'', lit ''the''], WordB]),
       gi (seq [WordB, lit ''stand'', Opt (lit ''s''), Plus (Ch Space), lit ''as'',
           Plus (Ch Space), alts [lit ''a'', lit ''an'', lit ''the''], WordB]),
       gi (seq [WordB, lit ''mark'', Opt (lit ''s''), Plus (Ch Space), alts [lit ''a'',
           lit ''an'', lit ''the''], WordB]),
       gi (seq [WordB, lit ''represent'', Opt (lit ''s''), Plus (Ch Space), alts [lit ''a'',
           lit ''an'', lit ''the''], WordB]),
       gi (seq [WordB, lit ''feature'', Opt (lit ''s''), Plus (Ch Space), alts [lit ''a'',
           lit ''an'', lit ''the''], WordB]),
       gi (seq [WordB, lit ''offer'', Opt (lit ''s''), Plus (Ch Space), alts [lit ''a'',
           lit ''an'', lit ''the''], WordB])
     ]\<rparr>\<close>

definition sycophantic :: category where
  \<open>sycophantic = \<lparr>
     c_name = ''Sycophantic Tone'',
     c_description = ''Overly positive, people-pleasing language'',
     c_weight = 3,
     c_patterns = [
       gi (seq [WordB, lit ''Great'', Plus (Ch Space), lit ''question'', Opt (lit ''!''),
           WordB]),
       gi (seq [WordB, lit ''Excellent'', Plus (Ch Space), lit ''point'', Opt (lit ''!''),
           WordB]),
       gi (seq [WordB, lit ''You'', Opt (lits [39]), lit ''re'', Plus (Ch Space),
           lit ''absolutely'', Plus (Ch Space), lit ''right'', WordB]),
       g (seq [WordB, lit ''Of'', Plus (Ch Space), lit ''course!'', WordB]),
       g (seq [WordB, lit ''Certainly!'', WordB]),
       gi (seq [WordB, lit ''I'', Plus (Ch Space), lit ''hope'', Plus (Ch Space), lit ''this'',
           Plus (Ch Space), lit ''helps'', WordB]),
       gi (seq [WordB, lit ''let'', Plus (Ch Space), lit ''me'', Plus (Ch Space), lit ''know'',
           Plus (Ch Space), lit ''if'', WordB]),
       gi (seq [WordB, lit ''I'', alts [seq [lits [39], lit ''d''], lit '' would''],
           Plus (Ch Space), lit ''be'', Plus (Ch Space), lit ''happy'', Plus (Ch Space),
           lit ''to'', WordB]),
       gi (seq [WordB, lit ''Would'', Plus (Ch Space), lit ''you'', Plus (Ch Space),
           lit ''like'', Plus (Ch Space), lit ''me'', Plus (Ch Space), lit ''to'', WordB]),
       gi (seq [WordB, lit ''happy'', Plus (Ch Space), lit ''to'', Plus (Ch Space),
           lit ''help'', WordB])
     ]\<rparr>\<close>

definition filler :: category where
  \<open>filler = \<lparr>
     c_name = ''Filler Phrases'',
     c_description = ''Unnecessary wordy constructions'',
     c_weight = 2,
     c_patterns = [
       gi (seq [WordB, lit ''In'', Plus (Ch Space), lit ''order'', Plus (Ch Space), lit ''to'',
           WordB]),
       gi (seq [WordB, lit ''Due'', Plus (Ch Space), lit ''to'', Plus (Ch Space), lit ''the'',
           Plus (Ch Space), lit ''fact'', Plus (Ch Space), lit ''that'', WordB]),
       gi (seq [WordB, lit ''At'', Plus (Ch Space), lit ''this'', Plus (Ch Space),
           lit ''point'', Plus (Ch Space), lit ''in'', Plus (Ch Space), lit ''time'', WordB]),
       gi (seq [WordB, lit ''In'', Plus (Ch Space), lit ''the'', Plus (Ch Space),
           lit ''event'', Plus (Ch Space), lit ''that'', WordB]),
       gi (seq [WordB, lit ''has'', Plus (Ch Space), lit ''the'', Plus (Ch Space),
           lit ''ability'', Plus (Ch Space), lit ''to'', WordB]),
       gi (seq [WordB, lit ''It'', Plus (Ch Space), lit ''is'', Plus (Ch Space),
           lit ''important'', Plus (Ch Space), lit ''to'', Plus (Ch Space), lit ''note'',
           Plus (Ch Space), lit ''that'', WordB]),
       gi (seq [WordB, lit ''It'', Plus (Ch Space), lit ''should'', Plus (Ch Space),
           lit ''be'', Plus (Ch Space), lit ''noted'', Plus (Ch Space), lit ''that'', WordB]),
       gi (seq [WordB, lit ''It'', Plus (Ch Space), lit ''is'', Plus (Ch Space), lit ''worth'',
           Plus (Ch Space), lit ''mentioning'', Plus (Ch Space), lit ''that'', WordB])
     ]\<rparr>\<close>

definition generic_conclusion :: category where
  \<open>generic_conclusion = \<lparr>
     c_name = ''Generic Conclusions'',
     c_description = ''Vague upbeat endings'',
     c_weight = 2,
     c_patterns = [
       gi (seq [WordB, lit ''The'', Plus (Ch Space), lit ''future'', Plus (Ch Space),
           lit ''looks'', Plus (Ch Space), lit ''bright'', WordB]),
       gi (seq [WordB, lit ''Exciting'', Plus (Ch Space), lit ''times'', Plus (Ch Space),
           alts [lit ''lie'', lit ''lay''], Plus (Ch Space), lit ''ahead'', WordB]),
       gi (seq [WordB, lit ''continue'', Plus (Ch Space), lit ''their'', Plus (Ch Space),
           lit ''journey'', WordB]),
       gi (seq [WordB, lit ''major'', Plus (Ch Space), lit ''step'', Plus (Ch Space),
           lit ''in'', Plus (Ch Space), lit ''the'', Plus (Ch Space), lit ''right'',
           Plus (Ch Space), lit ''direction'', WordB]),
       gi (seq [WordB, lit ''pave'', Plus (Ch Space), lit ''the'', Plus (Ch Space),
           lit ''way'', Plus (Ch Space), lit ''for'', WordB])
     ]\<rparr>\<close>

definition challenges_prospects :: category where
  \<open>challenges_prospects = \<lparr>
     c_name = ''Challenges & Prospects'',
     c_description = ''Formulaic structure common in AI text'',
     c_weight = 2,
     c_patterns = [
       gi (seq [WordB, lit ''Despite'', Plus (Ch Space), alts [lit ''its'', lit ''these'',
           lit ''their''], Plus (Ch Space), Plus (Ch WordCh), lit '','', Plus (Ch Space),
           lit ''face'', Opt (lit ''s''), Plus (Ch Space), lit ''several'', Plus (Ch Space),
           lit ''challenges'', WordB]),
       gi (seq [WordB, lit ''Despite'', Plus (Ch Space), lit ''these'', Plus (Ch Space),
           lit ''challenges'', WordB]),
       g (seq [WordB, lit ''Future'', Plus (Ch Space), lit ''Outlook'', WordB]),
       gi (seq [WordB, lit ''Challenges'', Plus (Ch Space), lit ''and'', Plus (Ch Space),
           alts [lit ''Legacy'', lit ''Opportunities'', lit ''Future''], WordB])
     ]\<rparr>\<close>

definition PATTERNS :: "(string \<times> category) list" where
  "PATTERNS = [
     (''inflated_significance'', inflated_significance),
     (''superficial_ing'', superficial_ing),
     (''promotional'', promotional),
     (''ai_vocabulary'', ai_vocabulary),
     (''vague_attribution'', vague_attribution),
     (''negative_parallelism'', negative_parallelism),
     (''rule_of_three'', rule_of_three),
     (''em_dash'', em_dash),
     (''copula_avoidance'', copula_avoidance),
     (''sycophantic'', sycophantic),
     (''filler'', filler),
     (''generic_conclusion'', generic_conclusion),
     (''challenges_prospects'', challenges_prospects)
   ]"

section \<open>Analysis\<close>

text \<open>
  \<open>text.split(/\s+/)\<close>: the pieces of the text between the maximal runs of white space,
  the piece before a leading run and the piece after a trailing run included (they are
  empty). The first argument tells whether the scan is inside a run of white space, the
  second is the piece being read, reversed.
\<close>

fun split_go :: "bool \<Rightarrow> jsstring \<Rightarrow> jsstring \<Rightarrow> jsstring list" where
  "split_go False cur [] = [rev cur]"
| "split_go False cur (x # xs) =
     (if is_space x then rev cur # split_go True [] xs else split_go False (x # cur) xs)"
| "split_go True cur [] = [[]]"
| "split_go True cur (x # xs) =
     (if is_space x then split_go True [] xs else split_go False [x] xs)"

definition split_ws :: "jsstring \<Rightarrow> jsstring list" where
  "split_ws text = split_go False [] text"

text \<open>
  \<open>text.slice(start, end)\<close>, with the treatment of negative and too large arguments that
  ECMAScript gives.
\<close>

definition js_slice :: "jsstring \<Rightarrow> int \<Rightarrow> int \<Rightarrow> jsstring" where
  "js_slice text start end' =
     (let len = int (length text);
          from = (if start < 0 then max (len + start) 0 else min start len);
          to = (if end' < 0 then max (len + end') 0 else min end' len)
      in take (nat (max (to - from) 0)) (drop (nat from) text))"

definition getContext :: "jsstring \<Rightarrow> nat \<Rightarrow> nat \<Rightarrow> nat \<Rightarrow> jsstring" where
  "getContext text index matchLength contextSize =
     (let start = max 0 (int index - int contextSize);
          end' = min (int (length text)) (int index + int matchLength + int contextSize);
          context = js_slice text start end';
          context = (if start > 0 then js_str ''...'' @ context else context);
          context = (if end' < int (length text) then context @ js_str ''...'' else context)
      in context)"

text \<open>A recorded match (fields \<open>text\<close>, \<open>index\<close>, \<open>context\<close> in the source), and a
  match tagged with the name of its category, as pushed onto \<open>results.matches\<close>.\<close>

record jsmatch =
  m_text :: jsstring
  m_index :: nat
  m_context :: jsstring

record tagged_match = jsmatch +
  m_category :: string

record category_result =
  name :: string
  description :: string
  matches :: "jsmatch list"
  weight :: nat
  count :: nat

text \<open>
  The result of an analysis (fields \<open>patterns\<close>, \<open>matches\<close>, \<open>totalWeight\<close>,
  \<open>wordCount\<close> in the source). \<open>patterns\<close> is an object with string keys: the list of
  its properties in the order of their creation.
\<close>

record analysis =
  r_patterns :: "(string \<times> category_result) list"
  r_matches :: "tagged_match list"
  totalWeight :: nat
  wordCount :: nat

text \<open>Assignment to a property of an object: an existing property keeps its place, a new
  one is added at the end.\<close>

fun obj_set :: "'k \<Rightarrow> 'v \<Rightarrow> ('k \<times> 'v) list \<Rightarrow> ('k \<times> 'v) list" where
  "obj_set k v [] = [(k, v)]"
| "obj_set k v ((k', v') # kvs) =
     (if k = k' then (k, v) # kvs else (k', v') # obj_set k v kvs)"

text \<open>The object pushed onto \<open>categoryMatches\<close> for a match, given by its index and its
  text \<open>match[0]\<close>; \<open>getContext\<close> is called with its default context size.\<close>

fun record_match :: "jsstring \<Rightarrow> nat \<times> jsstring \<Rightarrow> jsmatch" where
  "record_match text (i, m) =
     \<lparr>m_text = m, m_index = i, m_context = getContext text i (length m) 40\<rparr>"

text \<open>The matches that one pattern contributes to \<open>categoryMatches\<close>.\<close>

definition patternMatches :: "jsstring \<Rightarrow> regexp \<Rightarrow> jsmatch list" where
  "patternMatches text pattern = map (record_match text) (matchAll text pattern)"

text \<open>The inner loop of \<open>analyzeText\<close>: the matches of all patterns of a category.\<close>

definition categoryMatches :: "jsstring \<Rightarrow> category \<Rightarrow> jsmatch list" where
  "categoryMatches text cat = concat (map (patternMatches text) (c_patterns cat))"

definition tag :: "string \<Rightarrow> jsmatch \<Rightarrow> tagged_match" where
  "tag n m = \<lparr>m_text = m_text m, m_index = m_index m, m_context = m_context m,
              m_category = n\<rparr>"

text \<open>The body of the outer loop of \<open>analyzeText\<close>, for one entry of the catalogue.\<close>

definition analyze_category ::
    "jsstring \<Rightarrow> analysis \<Rightarrow> string \<times> category \<Rightarrow> analysis" where
  "analyze_category text results entry =
     (let key = fst entry; cat = snd entry; ms = categoryMatches text cat in
      if length ms > 0 then
        results\<lparr>
          r_patterns := obj_set key
             \<lparr>name = c_name cat, description = c_description cat, matches = ms,
              weight = c_weight cat, count = length ms\<rparr> (r_patterns results),
          totalWeight := totalWeight results + c_weight cat * length ms,
          r_matches := r_matches results @ map (tag (c_name cat)) ms\<rparr>
      else results)"

definition analyze_with :: "(string \<times> category) list \<Rightarrow> jsstring \<Rightarrow> analysis" where
  "analyze_with catalogue text =
     foldl (analyze_category text)
       \<lparr>r_patterns = [], r_matches = [], totalWeight = 0,
        wordCount = length (filter (\<lambda>w. length w > 0) (split_ws text))\<rparr>
       catalogue"

definition analyzeText :: "jsstring \<Rightarrow> analysis" where
  "analyzeText text = analyze_with PATTERNS text"

section \<open>Score\<close>

definition calculateScore :: "analysis \<Rightarrow> jsnum" where
  "calculateScore a =
     (let weightPerHundredWords =
            js_mul (js_div (Fin (of_nat (totalWeight a))) (Fin (of_nat (wordCount a))))
                   (Fin 100);
          score = js_min (Fin 100) (js_round (js_mul weightPerHundredWords (Fin 5)))
      in score)"

text \<open>
  The score as the specification words it, in the same arithmetic:
  \<open>weightedDensity = (totalWeightedCount / max(wordCount, 1)) * 100\<close>,
  \<open>rawScore = weightedDensity * 5\<close>, \<open>score = round(min(100, max(0, rawScore)))\<close>.
\<close>

fun js_max :: "jsnum \<Rightarrow> jsnum \<Rightarrow> jsnum" where
  "js_max NaN y = NaN"
| "js_max x NaN = NaN"
| "js_max PosInf y = PosInf"
| "js_max x PosInf = PosInf"
| "js_max NegInf y = y"
| "js_max x NegInf = x"
| "js_max (Fin a) (Fin b) = Fin (max a b)"

definition spec_score :: "analysis \<Rightarrow> jsnum" where
  "spec_score a =
     (let weightedDensity =
            js_mul (js_div (Fin (of_nat (totalWeight a)))
                           (js_max (Fin (of_nat (wordCount a))) (Fin 1)))
                   (Fin 100);
          rawScore = js_mul weightedDensity (Fin 5)
      in js_round (js_min (Fin 100) (js_max (Fin 0) rawScore)))"

section \<open>Notions used in the statements and proofs\<close>

text \<open>
  The context of a match \<open>m\<close> that stands between \<open>a\<close> and \<open>b\<close> in the text: the last 40
  code units of \<open>a\<close>, the match and the first 40 code units of \<open>b\<close>, with \<open>...\<close> in
  front when \<open>a\<close> is longer than 40 and \<open>...\<close> behind when \<open>b\<close> is longer than 40.
\<close>

definition context_window :: "jsstring \<Rightarrow> jsstring \<Rightarrow> jsstring \<Rightarrow> jsstring" where
  "context_window a m b =
     (if 40 < length a then js_str ''...'' else []) @
     drop (length a - 40) a @ m @ take 40 b @
     (if 40 < length b then js_str ''...'' else [])"

text \<open>
  The context as the specification words it: the window of 40 code units on each side of
  the match, clipped to the bounds of the document, with \<open>...\<close> in front when the window
  was clipped at the start of the document and \<open>...\<close> behind when it was clipped at the
  end.
\<close>

definition spec_context :: "jsstring \<Rightarrow> nat \<Rightarrow> nat \<Rightarrow> jsstring" where
  "spec_context text index matchLength =
     (let lo = int index - 40;
          hi = int index + int matchLength + 40;
          window = js_slice text (max 0 lo) (min (int (length text)) hi)
      in (if lo < 0 then js_str ''...'' else []) @ window @
         (if int (length text) < hi then js_str ''...'' else []))"

text \<open>The entry of \<open>results.patterns\<close> that \<open>analyzeText\<close> builds for a category with
  matches.\<close>

definition entry_result :: "jsstring \<Rightarrow> category \<Rightarrow> category_result" where
  "entry_result text cat =
     \<lparr>name = c_name cat, description = c_description cat, matches = categoryMatches text cat,
      weight = c_weight cat, count = length (categoryMatches text cat)\<rparr>"

text \<open>The text of the scenario of the specification (and of the tests of the repository).\<close>

definition scenario_text :: jsstring where
  "scenario_text =
     js_str ''This groundbreaking innovation serves as a testament to our commitment to excellence''"

text \<open>
  A sufficient syntactic condition for a pattern to have no match in a text that consists
  of white space only: every match has to go through a word boundary or through an atom
  that no white space character matches. \<open>ws_cursor\<close> describes the cursors of such a
  text.
\<close>

definition lit_nonspace :: "bool \<Rightarrow> nat \<Rightarrow> bool" where
  "lit_nonspace ci c =
     (if ci then \<not> is_space (canonicalize c) \<and> \<not> is_space (canonicalize c + 32)
      else \<not> is_space c)"

fun atom_nonspace :: "bool \<Rightarrow> atom \<Rightarrow> bool" where
  "atom_nonspace ci (Lit c) = lit_nonspace ci c"
| "atom_nonspace ci WordCh = True"
| "atom_nonspace ci (OneOf cs) = list_all (lit_nonspace ci) cs"
| "atom_nonspace ci a = False"

fun needs_nonspace :: "bool \<Rightarrow> regex \<Rightarrow> bool" where
  "needs_nonspace ci Eps = False"
| "needs_nonspace ci (Ch a) = atom_nonspace ci a"
| "needs_nonspace ci WordB = True"
| "needs_nonspace ci (Cat r1 r2) = (needs_nonspace ci r1 \<or> needs_nonspace ci r2)"
| "needs_nonspace ci (Alt r1 r2) = (needs_nonspace ci r1 \<and> needs_nonspace ci r2)"
| "needs_nonspace ci (Star r) = False"
| "needs_nonspace ci (Opt r) = False"

definition category_needs_nonspace :: "category \<Rightarrow> bool" where
  "category_needs_nonspace c =
     list_all (\<lambda>re. needs_nonspace (ignoreCase re) (source re)) (c_patterns c)"

definition ws_cursor :: "cursor \<Rightarrow> bool" where
  "ws_cursor cur \<longleftrightarrow> \<not> is_word_opt (fst cur) \<and> list_all is_space (snd cur)"


text \<open>
  The score with a rounding \<open>rd\<close> applied to the result of each of the three arithmetic
  operations, which is how floating-point arithmetic computes it; \<open>calculateScore\<close> above
  is the case of exact arithmetic.
\<close>

fun js_rounded :: "(rat \<Rightarrow> rat) \<Rightarrow> jsnum \<Rightarrow> jsnum" where
  "js_rounded rd (Fin a) = Fin (rd a)"
| "js_rounded rd x = x"

definition calculateScore_rounded :: "(rat \<Rightarrow> rat) \<Rightarrow> analysis \<Rightarrow> jsnum" where
  "calculateScore_rounded rd a =
     (let weightPerHundredWords =
            js_rounded rd (js_mul
              (js_rounded rd (js_div (Fin (of_nat (totalWeight a))) (Fin (of_nat (wordCount a)))))
              (Fin 100));
          score = js_min (Fin 100)
                    (js_round (js_rounded rd (js_mul weightPerHundredWords (Fin 5))))
      in score)"

text \<open>
  Appending to a text. \<open>occurrences_at re text n as\<close> says that the strings \<open>as\<close> stand in
  \<open>text\<close> one after the other from index \<open>n\<close> on, and that each of them is a match that
  \<open>matchAll\<close> records for \<open>re\<close> in \<open>text\<close>, at the index where it stands.
\<close>

fun occurrences_at :: "regexp \<Rightarrow> jsstring \<Rightarrow> nat \<Rightarrow> jsstring list \<Rightarrow> bool" where
  "occurrences_at re text n [] = True"
| "occurrences_at re text n (a # as) =
     ((n, a) \<in> set (matchAll text re) \<and> occurrences_at re text (n + length a) as)"

text \<open>
  \<open>last_unit\<close> is the last code unit of a text. A text \<open>t\<close> and a text \<open>a\<close> appended to
  it are joined inside a word when \<open>t\<close> ends with a word character and \<open>a\<close> starts with
  one; only then does \<open>t\<close> lose the word boundary at its end. \<open>at_cursor t c\<close> says that
  \<open>c\<close> is a cursor of the text \<open>t\<close>, and \<open>lengthen a c\<close> is the cursor at the same index
  of the text with \<open>a\<close> appended.
\<close>

definition last_unit :: "jsstring \<Rightarrow> nat option" where
  "last_unit xs = (if xs = [] then None else Some (last xs))"

definition word_join :: "jsstring \<Rightarrow> jsstring \<Rightarrow> bool" where
  "word_join t a \<longleftrightarrow> is_word_opt (last_unit t) \<and> is_word_opt (next_unit a)"

definition at_cursor :: "jsstring \<Rightarrow> cursor \<Rightarrow> bool" where
  "at_cursor t c \<longleftrightarrow>
     length (snd c) \<le> length t \<and> drop (length t - length (snd c)) t = snd c
     \<and> fst c = last_unit (take (length t - length (snd c)) t)"

definition lengthen :: "jsstring \<Rightarrow> cursor \<Rightarrow> cursor" where
  "lengthen a c = (fst c, snd c @ a)"

text \<open>
  Classes of code units, for counting how many code units of a class a match consumes:
  those that are not white space, the comma and the full stop, the word characters, and
  the two cases of a letter.
\<close>

datatype charclass = NonSpaceC | StopC | WordC | LetterC nat

fun in_class :: "charclass \<Rightarrow> nat \<Rightarrow> bool" where
  "in_class NonSpaceC x = (\<not> is_space x)"
| "in_class StopC x = (x = 44 \<or> x = 46)"
| "in_class WordC x = is_word x"
| "in_class (LetterC c) x = (canonicalize x = canonicalize c)"

definition count_in :: "charclass \<Rightarrow> jsstring \<Rightarrow> nat" where
  "count_in k xs = length (filter (in_class k) xs)"

text \<open>
  The code units that a literal character of a pattern can match, and whether every code
  unit that an atom can match lies in a class, or none does.
\<close>

definition lit_units :: "bool \<Rightarrow> nat \<Rightarrow> nat list" where
  "lit_units ci c =
     (if ci then (if 65 \<le> canonicalize c \<and> canonicalize c \<le> 90
                  then [canonicalize c, canonicalize c + 32] else [canonicalize c])
      else [c])"

fun atom_within :: "charclass \<Rightarrow> bool \<Rightarrow> atom \<Rightarrow> bool" where
  "atom_within k ci (Lit c) = list_all (in_class k) (lit_units ci c)"
| "atom_within k ci (OneOf cs) = list_all (\<lambda>c. list_all (in_class k) (lit_units ci c)) cs"
| "atom_within k ci WordCh = (k = WordC \<or> k = NonSpaceC)"
| "atom_within k ci a = False"

fun atom_outside :: "charclass \<Rightarrow> bool \<Rightarrow> atom \<Rightarrow> bool" where
  "atom_outside k ci (Lit c) = list_all (\<lambda>x. \<not> in_class k x) (lit_units ci c)"
| "atom_outside k ci (OneOf cs) =
     list_all (\<lambda>c. list_all (\<lambda>x. \<not> in_class k x) (lit_units ci c)) cs"
| "atom_outside k ci WordCh = (k = StopC)"
| "atom_outside k ci Space =
     (case k of LetterC c \<Rightarrow> \<not> is_space (canonicalize c) | _ \<Rightarrow> True)"
| "atom_outside k ci (NoneOf cs) =
     (k = StopC \<and> list_ex (\<lambda>c. chr_eq ci c 44) cs \<and> list_ex (\<lambda>c. chr_eq ci c 46) cs)"
| "atom_outside k ci AnyCh = False"

text \<open>
  Bounds, read off the syntax of a pattern, on the number of code units of a class that a
  match consumes: at least \<open>res_lo\<close>, and at most \<open>res_hi\<close> where that is not \<open>None\<close>. A
  pattern is tight in a class when two matches together always consume more code units of
  the class than one match can, so that one match cannot extend over two others; every
  pattern of the catalogue without \<open>.*\<close> is tight in one of the first two classes.
\<close>

fun res_lo :: "charclass \<Rightarrow> bool \<Rightarrow> regex \<Rightarrow> nat" where
  "res_lo k ci Eps = 0"
| "res_lo k ci (Ch a) = (if atom_within k ci a then 1 else 0)"
| "res_lo k ci WordB = 0"
| "res_lo k ci (Cat r1 r2) = res_lo k ci r1 + res_lo k ci r2"
| "res_lo k ci (Alt r1 r2) = min (res_lo k ci r1) (res_lo k ci r2)"
| "res_lo k ci (Star r) = 0"
| "res_lo k ci (Opt r) = 0"

fun res_hi :: "charclass \<Rightarrow> bool \<Rightarrow> regex \<Rightarrow> nat option" where
  "res_hi k ci Eps = Some 0"
| "res_hi k ci (Ch a) = Some (if atom_outside k ci a then 0 else 1)"
| "res_hi k ci WordB = Some 0"
| "res_hi k ci (Cat r1 r2) =
     (case res_hi k ci r1 of None \<Rightarrow> None
      | Some m \<Rightarrow> (case res_hi k ci r2 of None \<Rightarrow> None | Some n \<Rightarrow> Some (m + n)))"
| "res_hi k ci (Alt r1 r2) =
     (case res_hi k ci r1 of None \<Rightarrow> None
      | Some m \<Rightarrow> (case res_hi k ci r2 of None \<Rightarrow> None | Some n \<Rightarrow> Some (max m n)))"
| "res_hi k ci (Star r) = (if res_hi k ci r = Some 0 then Some 0 else None)"
| "res_hi k ci (Opt r) = res_hi k ci r"

definition tight_in :: "charclass \<Rightarrow> regexp \<Rightarrow> bool" where
  "tight_in k re =
     (case res_hi k (ignoreCase re) (source re) of None \<Rightarrow> False
      | Some h \<Rightarrow> h < 2 * res_lo k (ignoreCase re) (source re))"

definition tight :: "regexp \<Rightarrow> bool" where
  "tight re \<longleftrightarrow> tight_in NonSpaceC re \<or> tight_in StopC re"

text \<open>
  A match of a pattern that is \<open>starts_guarded\<close> cannot start between two word
  characters: the pattern starts with \<open>\b\<close> or with an atom that matches no word character.
  A match of a pattern that \<open>starts_within\<close> a class starts with a code unit of the class
  (after assertions of width zero).
\<close>

fun starts_guarded :: "bool \<Rightarrow> regex \<Rightarrow> bool" where
  "starts_guarded ci Eps = False"
| "starts_guarded ci (Ch a) = atom_outside WordC ci a"
| "starts_guarded ci WordB = True"
| "starts_guarded ci (Cat r1 r2) = starts_guarded ci r1"
| "starts_guarded ci (Alt r1 r2) = (starts_guarded ci r1 \<and> starts_guarded ci r2)"
| "starts_guarded ci (Star r) = False"
| "starts_guarded ci (Opt r) = False"

fun zero_width :: "regex \<Rightarrow> bool" where
  "zero_width Eps = True"
| "zero_width WordB = True"
| "zero_width (Cat r1 r2) = (zero_width r1 \<and> zero_width r2)"
| "zero_width (Alt r1 r2) = (zero_width r1 \<and> zero_width r2)"
| "zero_width r = False"

fun starts_within :: "charclass \<Rightarrow> bool \<Rightarrow> regex \<Rightarrow> bool" where
  "starts_within k ci Eps = False"
| "starts_within k ci (Ch a) = atom_within k ci a"
| "starts_within k ci WordB = False"
| "starts_within k ci (Cat r1 r2) =
     (starts_within k ci r1 \<or> (zero_width r1 \<and> starts_within k ci r2))"
| "starts_within k ci (Alt r1 r2) = (starts_within k ci r1 \<and> starts_within k ci r2)"
| "starts_within k ci (Star r) = False"
| "starts_within k ci (Opt r) = False"

text \<open>
  The three patterns with \<open>.*\<close> have the form \<open>pre.*post\<close>. The conditions of
  \<open>spans_once\<close> on such a pattern are: every match of \<open>pre\<close> consumes the same number of
  word characters, and every match of \<open>post\<close> starts with a word character, which is the
  letter \<open>f\<close> in one of its two cases, and contains that letter only once.
\<close>

definition dotted :: "regex list \<Rightarrow> regex list \<Rightarrow> regex" where
  "dotted pre post = seq (pre @ Star (Ch AnyCh) # post)"

definition spans_once :: "nat \<Rightarrow> bool \<Rightarrow> regex list \<Rightarrow> regex list \<Rightarrow> bool" where
  "spans_once f ci pre post \<longleftrightarrow>
     res_hi WordC ci (seq pre) = Some (res_lo WordC ci (seq pre))
     \<and> starts_within WordC ci (seq post)
     \<and> starts_within (LetterC f) ci (seq post)
     \<and> res_hi (LetterC f) ci (seq post) = Some 1"

text \<open>
  The equations of \<open>matchAll_from\<close> and of \<open>ends\<close> for \<open>*\<close> mention the function on
  both sides; they are applied explicitly.
\<close>

declare matchAll_from.simps [simp del]
declare ends.simps(7) [simp del]

section \<open>Properties of the labels\<close>

lemma labels_distinct:
  "distinct [label_very_human, label_mostly_human, label_some_ai, label_likely_ai, label_very_ai]"
  by (simp add: label_very_human_def label_mostly_human_def label_some_ai_def
      label_likely_ai_def label_very_ai_def js_str_def)

text \<open>
  Claim C4. For every integer score from 0 to 100, \<open>getScoreLabel\<close> returns the label of
  the band of the fixed thresholds: 0 to 10 gives "Very Human", 11 to 25 "Mostly Human",
  26 to 50 "Some AI Patterns", 51 to 75 "Likely AI" and 76 to 100 "Very AI-like"; the
  five labels are different strings, so each score has exactly one band. The scores 10,
  11, 25, 26, 50, 51, 75 and 76 are the ends of these intervals. (Each label is the
  string of the source, in which the name of the band follows a decoration.)
\<close>

theorem getScoreLabel_bands:
  fixes s :: int
  shows "(0 \<le> s \<and> s \<le> 10 \<longrightarrow> getScoreLabel (Fin (of_int s)) = label_very_human)
       \<and> (11 \<le> s \<and> s \<le> 25 \<longrightarrow> getScoreLabel (Fin (of_int s)) = label_mostly_human)
       \<and> (26 \<le> s \<and> s \<le> 50 \<longrightarrow> getScoreLabel (Fin (of_int s)) = label_some_ai)
       \<and> (51 \<le> s \<and> s \<le> 75 \<longrightarrow> getScoreLabel (Fin (of_int s)) = label_likely_ai)
       \<and> (76 \<le> s \<and> s \<le> 100 \<longrightarrow> getScoreLabel (Fin (of_int s)) = label_very_ai)
       \<and> distinct [label_very_human, label_mostly_human, label_some_ai, label_likely_ai,
                    label_very_ai]"
  using labels_distinct by (simp add: getScoreLabel_def)

theorem getScoreLabel_bands_witness:
  "getScoreLabel (Fin 10) = label_very_human \<and> getScoreLabel (Fin 11) = label_mostly_human
   \<and> getScoreLabel (Fin 25) = label_mostly_human \<and> getScoreLabel (Fin 26) = label_some_ai
   \<and> getScoreLabel (Fin 50) = label_some_ai \<and> getScoreLabel (Fin 51) = label_likely_ai
   \<and> getScoreLabel (Fin 75) = label_likely_ai \<and> getScoreLabel (Fin 76) = label_very_ai
   \<and> getScoreLabel (Fin 0) = label_very_human \<and> getScoreLabel (Fin 100) = label_very_ai"
  using getScoreLabel_bands [of 10] getScoreLabel_bands [of 11] getScoreLabel_bands [of 25]
    getScoreLabel_bands [of 26] getScoreLabel_bands [of 50] getScoreLabel_bands [of 51]
    getScoreLabel_bands [of 75] getScoreLabel_bands [of 76] getScoreLabel_bands [of 0]
    getScoreLabel_bands [of 100]
  by simp

text \<open>
  Claim C10. \<open>getScoreLabel\<close> gives a label to every number: an input for which none of
  the four comparisons \<open>score <= 10\<close>, \<open>score <= 25\<close>, \<open>score <= 50\<close>, \<open>score <= 75\<close>
  holds gets "Very AI-like", in particular NaN, \<open>+\<infinity>\<close> and every value above 100; every
  negative value (and \<open>-\<infinity>\<close>) gets "Very Human".
\<close>

theorem getScoreLabel_total:
  "(\<not> js_le x (Fin 10) \<and> \<not> js_le x (Fin 25) \<and> \<not> js_le x (Fin 50) \<and> \<not> js_le x (Fin 75)
      \<longrightarrow> getScoreLabel x = label_very_ai)
   \<and> getScoreLabel NaN = label_very_ai
   \<and> getScoreLabel PosInf = label_very_ai
   \<and> (100 < r \<longrightarrow> getScoreLabel (Fin r) = label_very_ai)
   \<and> (q < 0 \<longrightarrow> getScoreLabel (Fin q) = label_very_human)
   \<and> getScoreLabel NegInf = label_very_human"
  by (simp add: getScoreLabel_def)

theorem getScoreLabel_total_witness:
  "getScoreLabel NaN = label_very_ai \<and> getScoreLabel (Fin 101) = label_very_ai
   \<and> getScoreLabel (Fin (1001 / 10)) = label_very_ai
   \<and> getScoreLabel (Fin (- 1)) = label_very_human"
  using getScoreLabel_total [of NaN 101 "- 1"] getScoreLabel_total [of "Fin (1001 / 10)" 101 "- 1"]
  by simp

section \<open>Properties of the score\<close>

lemma floor_half: "\<lfloor>(1 / 2 :: rat)\<rfloor> = 0"
  by (rule floor_unique) simp_all

lemma floor_100_half: "\<lfloor>(100::rat) + 1 / 2\<rfloor> = 100"
  by (rule floor_unique) simp_all

lemma round_clamp:
  fixes x :: rat
  assumes "0 \<le> x"
  shows "min 100 (of_int \<lfloor>x + 1 / 2\<rfloor>) = (of_int \<lfloor>min 100 (max 0 x) + 1 / 2\<rfloor> :: rat)"
proof (cases "x < 100")
  case True
  then have "\<lfloor>x + 1 / 2\<rfloor> \<le> 100" by (simp add: floor_le_iff)
  then have "(of_int \<lfloor>x + 1 / 2\<rfloor> :: rat) \<le> 100" by simp
  moreover have "min 100 (max 0 x) = x" using True assms by simp
  ultimately show ?thesis by simp
next
  case False
  then have "100 \<le> \<lfloor>x + 1 / 2\<rfloor>" by (simp add: le_floor_iff)
  then have "(100::rat) \<le> of_int \<lfloor>x + 1 / 2\<rfloor>" by simp
  moreover have "min 100 (max 0 x) = 100" using False by simp
  moreover note floor_100_half
  ultimately show ?thesis by simp
qed

text \<open>
  Where there is at least one word, or at least one weighted match, the score of the
  source and the score as the specification words it are the same number.
\<close>

lemma calculateScore_spec_score:
  assumes "1 \<le> wordCount a \<or> 1 \<le> totalWeight a"
  shows "calculateScore a = spec_score a"
proof (cases "wordCount a = 0")
  case True
  with assms have tw: "1 \<le> totalWeight a" by simp
  then have "(1::rat) \<le> of_nat (totalWeight a)" by simp
  then have "(100::rat) \<le> of_nat (totalWeight a) * 100 * 5" by linarith
  then have "min 100 (max 0 (rat_of_nat (totalWeight a) * 100 * 5)) = 100" by simp
  moreover note floor_100_half
  ultimately show ?thesis using True tw
    by (simp add: calculateScore_def spec_score_def)
next
  case False
  let ?x = "(of_nat (totalWeight a) / of_nat (wordCount a) * 100 * 5 :: rat)"
  have "0 \<le> ?x" by simp
  from round_clamp[OF this] False show ?thesis
    by (simp add: calculateScore_def spec_score_def)
qed

text \<open>Where there is at least one word, the score is an integer from 0 to 100.\<close>

lemma calculateScore_range:
  assumes "1 \<le> wordCount a"
  shows "\<exists>k::int. 0 \<le> k \<and> k \<le> 100 \<and> calculateScore a = Fin (of_int k)"
proof -
  let ?f = "\<lfloor>(of_nat (totalWeight a) / of_nat (wordCount a) * 100 * 5 + 1 / 2 :: rat)\<rfloor>"
  have f0: "0 \<le> ?f" by (simp add: le_floor_iff)
  have "calculateScore a = Fin (of_int (min 100 ?f))"
    using assms by (simp add: calculateScore_def min_def)
  with f0 show ?thesis by (intro exI[of _ "min 100 ?f"]) simp
qed

text \<open>
  Claim C3. For every analysis result \<open>calculateScore\<close> would return
  \<open>round(min(100, max(0, ((totalWeight / max(wordCount, 1)) * 100) * 5)))\<close>. The source
  divides by \<open>wordCount\<close> itself: for the result with no word and no match, which is the
  analysis of the empty text, it returns NaN where the formula gives 0.
\<close>

theorem calculateScore_no_words:
  "calculateScore \<lparr>r_patterns = [], r_matches = [], totalWeight = 0, wordCount = 0\<rparr> = NaN
   \<and> spec_score \<lparr>r_patterns = [], r_matches = [], totalWeight = 0, wordCount = 0\<rparr> = Fin 0"
  by (simp add: calculateScore_def spec_score_def floor_half)

section \<open>Properties of the matcher\<close>

lemma in_ends_Star:
  "c \<in> set (ends ci (Star r) cur) \<longleftrightarrow>
     c = cur \<or> (\<exists>c1 \<in> set (ends ci r cur). length (snd c1) < length (snd cur)
                  \<and> c \<in> set (ends ci (Star r) c1))"
  by (subst ends.simps(7)) auto

lemma ends_suffix:
  "c \<in> set (ends ci r cur) \<Longrightarrow> \<exists>ys. snd cur = ys @ snd c"
proof (induction ci r cur arbitrary: c rule: ends.induct)
  case (5 ci r1 r2 cur)
  then obtain c1 where c1: "c1 \<in> set (ends ci r1 cur)" and c: "c \<in> set (ends ci r2 c1)"
    by auto
  from "5.IH"(1)[OF c1] obtain ys where "snd cur = ys @ snd c1" by blast
  moreover from "5.IH"(2)[OF c1 c] obtain zs where "snd c1 = zs @ snd c" by blast
  ultimately show ?case by simp
next
  case (7 ci r cur)
  from "7.prems" consider "c = cur"
    | c1 where "c1 \<in> set (ends ci r cur)" "length (snd c1) < length (snd cur)"
        "c \<in> set (ends ci (Star r) c1)"
    by (subst (asm) in_ends_Star) auto
  then show ?case
  proof cases
    case 1
    then show ?thesis by simp
  next
    case 2
    from "7.IH"(1)[OF 2(1)] obtain ys where "snd cur = ys @ snd c1" by blast
    moreover from "7.IH"(2)[OF 2(1) 2(2) 2(3)] obtain zs where "snd c1 = zs @ snd c" by blast
    ultimately show ?thesis by simp
  qed
qed (auto split: if_splits)

lemma ends_length: "c \<in> set (ends ci r cur) \<Longrightarrow> length (snd c) \<le> length (snd cur)"
  using ends_suffix by fastforce

lemma matchAll_from_nomatch:
  "ends (ignoreCase re) (source re) (p, xs) = [] \<Longrightarrow>
     matchAll_from re i (p, xs) =
       (case xs of [] \<Rightarrow> [] | x # xs' \<Rightarrow> matchAll_from re (Suc i) (Some x, xs'))"
  by (simp add: matchAll_from.simps)

lemma matchAll_from_match:
  "ends (ignoreCase re) (source re) (p, xs) = c # cs \<Longrightarrow>
     matchAll_from re i (p, xs) =
       (i, take (length xs - length (snd c)) xs) #
       (if length (snd c) < length xs
        then matchAll_from re (i + (length xs - length (snd c))) c
        else (case xs of [] \<Rightarrow> [] | x # xs' \<Rightarrow> matchAll_from re (Suc i) (Some x, xs')))"
  by (simp add: matchAll_from.simps)

lemma matchAll_from_sub:
  "(j, m) \<in> set (matchAll_from re i (p, xs)) \<Longrightarrow> length pre = i \<Longrightarrow>
     \<exists>a b. pre @ xs = a @ m @ b \<and> length a = j \<and> i \<le> j"
proof (induction "length xs" arbitrary: xs p i pre rule: less_induct)
  case less
  show ?case
  proof (cases "ends (ignoreCase re) (source re) (p, xs)")
    case Nil
    show ?thesis
    proof (cases xs)
      case xs: Nil
      with Nil less.prems show ?thesis by (simp add: matchAll_from_nomatch)
    next
      case xs: (Cons x xs')
      with Nil less.prems have "(j, m) \<in> set (matchAll_from re (Suc i) (Some x, xs'))"
        by (simp add: matchAll_from_nomatch)
      moreover have "length xs' < length xs" using xs by simp
      moreover have "length (pre @ [x]) = Suc i" using less.prems by simp
      ultimately obtain a b where "(pre @ [x]) @ xs' = a @ m @ b" "length a = j" "Suc i \<le> j"
        using less.hyps by blast
      with xs show ?thesis by auto
    qed
  next
    case (Cons c cs)
    then have "c \<in> set (ends (ignoreCase re) (source re) (p, xs))" by simp
    from ends_suffix[OF this] obtain ys where ys: "xs = ys @ snd c" by auto
    then have n: "length xs - length (snd c) = length ys" by simp
    from less.prems(1) Cons
    consider "j = i" "m = take (length xs - length (snd c)) xs"
      | "length (snd c) < length xs"
        "(j, m) \<in> set (matchAll_from re (i + (length xs - length (snd c))) (fst c, snd c))"
      | x xs' where "xs = x # xs'" "(j, m) \<in> set (matchAll_from re (Suc i) (Some x, xs'))"
      by (auto simp: matchAll_from_match split: if_splits list.splits)
    then show ?thesis
    proof cases
      case 1
      with ys n less.prems show ?thesis
        by (intro exI[of _ pre] exI[of _ "snd c"]) simp
    next
      case 2
      have "length (pre @ ys) = i + (length xs - length (snd c))"
        using less.prems n by simp
      with 2 obtain a b where "(pre @ ys) @ snd c = a @ m @ b" "length a = j"
          "i + (length xs - length (snd c)) \<le> j"
        using less.hyps by blast
      with ys show ?thesis by auto
    next
      case 3
      have "length xs' < length xs" using 3 by simp
      moreover have "length (pre @ [x]) = Suc i" using less.prems by simp
      ultimately obtain a b where "(pre @ [x]) @ xs' = a @ m @ b" "length a = j" "Suc i \<le> j"
        using less.hyps 3 by blast
      with 3 show ?thesis by auto
    qed
  qed
qed

lemma matchAll_from_lower:
  assumes "(j, m) \<in> set (matchAll_from re i (p, xs))"
  shows "i \<le> j"
proof -
  obtain pre :: "nat list" where "length pre = i" using Ex_list_of_length by blast
  from matchAll_from_sub[OF assms this] show ?thesis by blast
qed

lemma matchAll_from_sorted:
  "sorted_wrt (<) (map fst (matchAll_from re i (p, xs)))"
proof (induction "length xs" arbitrary: xs p i rule: less_induct)
  case less
  show ?case
  proof (cases "ends (ignoreCase re) (source re) (p, xs)")
    case Nil
    show ?thesis
    proof (cases xs)
      case xs: Nil
      with Nil show ?thesis by (simp add: matchAll_from_nomatch)
    next
      case xs: (Cons x xs')
      with Nil less.hyps[of xs' "Suc i" "Some x"] show ?thesis
        by (simp add: matchAll_from_nomatch)
    qed
  next
    case (Cons c cs)
    let ?n = "length xs - length (snd c)"
    show ?thesis
    proof (cases "length (snd c) < length xs")
      case True
      have low: "i < j" if "(j, m) \<in> set (matchAll_from re (i + ?n) (fst c, snd c))" for j m
        using matchAll_from_lower[OF that] True by simp
      from less.hyps[of "snd c" "i + ?n" "fst c"] True
      have "sorted_wrt (<) (map fst (matchAll_from re (i + ?n) (fst c, snd c)))" by simp
      with low Cons True show ?thesis
        by (auto simp: matchAll_from_match)
    next
      case False
      show ?thesis
      proof (cases xs)
        case xs: Nil
        with Cons False show ?thesis by (simp add: matchAll_from_match)
      next
        case xs: (Cons x xs')
        have low: "i < j" if "(j, m) \<in> set (matchAll_from re (Suc i) (Some x, xs'))" for j m
          using matchAll_from_lower[OF that] by simp
        from less.hyps[of xs' "Suc i" "Some x"] xs
        have "sorted_wrt (<) (map fst (matchAll_from re (Suc i) (Some x, xs')))" by simp
        with low Cons False xs show ?thesis
          by (auto simp: matchAll_from_match)
      qed
    qed
  qed
qed

section \<open>Texts of white space\<close>

lemma space_not_word: "is_space x \<Longrightarrow> \<not> is_word x"
  by (auto simp: is_space_def is_word_def)

lemma chr_eq_nonspace: "chr_eq ci c x \<Longrightarrow> lit_nonspace ci c \<Longrightarrow> \<not> is_space x"
proof (cases ci)
  case False
  assume "chr_eq ci c x" "lit_nonspace ci c"
  with False show ?thesis by (simp add: chr_eq_def lit_nonspace_def)
next
  case True
  assume a: "chr_eq ci c x" "lit_nonspace ci c"
  show ?thesis
  proof (cases "97 \<le> x \<and> x \<le> 122")
    case True
    then have "x = canonicalize x + 32" by (auto simp: canonicalize_def)
    with a \<open>ci\<close> show ?thesis by (simp add: chr_eq_def lit_nonspace_def)
  next
    case False
    then have "x = canonicalize x" by (auto simp: canonicalize_def)
    with a \<open>ci\<close> show ?thesis by (simp add: chr_eq_def lit_nonspace_def)
  qed
qed

lemma atom_match_nonspace:
  "atom_match ci a x \<Longrightarrow> atom_nonspace ci a \<Longrightarrow> \<not> is_space x"
  by (cases a) (auto simp: space_not_word list_ex_iff list_all_iff dest: chr_eq_nonspace)

lemma ends_ws_cursor:
  "c \<in> set (ends ci r cur) \<Longrightarrow> ws_cursor cur \<Longrightarrow> ws_cursor c"
proof (induction ci r cur arbitrary: c rule: ends.induct)
  case (3 ci a p x xs)
  then show ?case by (auto simp: ws_cursor_def space_not_word split: if_splits)
next
  case (4 ci p xs)
  then show ?case by (auto split: if_splits)
next
  case (5 ci r1 r2 cur)
  then obtain c1 where c1: "c1 \<in> set (ends ci r1 cur)" and c: "c \<in> set (ends ci r2 c1)"
    by auto
  from "5.IH"(1)[OF c1 "5.prems"(2)] have "ws_cursor c1" .
  from "5.IH"(2)[OF c1 c this] show ?case .
next
  case (6 ci r1 r2 cur)
  from "6.prems"(1) have "c \<in> set (ends ci r1 cur) \<or> c \<in> set (ends ci r2 cur)" by simp
  then show ?case using "6.IH" "6.prems"(2) by blast
next
  case (7 ci r cur)
  from "7.prems"(1) consider "c = cur"
    | c1 where "c1 \<in> set (ends ci r cur)" "length (snd c1) < length (snd cur)"
        "c \<in> set (ends ci (Star r) c1)"
    by (subst (asm) in_ends_Star) auto
  then show ?case
  proof cases
    case 1
    with "7.prems" show ?thesis by simp
  next
    case 2
    from "7.IH"(1)[OF 2(1) "7.prems"(2)] have "ws_cursor c1" .
    from "7.IH"(2)[OF 2(1) 2(2) 2(3) this] show ?thesis .
  qed
next
  case (8 ci r cur)
  from "8.prems"(1) have "c = cur \<or> c \<in> set (ends ci r cur)" by auto
  then show ?case using "8.IH" "8.prems"(2) by blast
qed simp_all

lemma ends_ws:
  "ws_cursor cur \<Longrightarrow> needs_nonspace ci r \<Longrightarrow> ends ci r cur = []"
proof (induction r arbitrary: cur)
  case (Ch a)
  obtain p xs where cur: "cur = (p, xs)" by (cases cur)
  show ?case
  proof (cases xs)
    case Nil
    with cur show ?thesis by simp
  next
    case (Cons x xs')
    with Ch cur have "is_space x" by (simp add: ws_cursor_def)
    with Ch have "\<not> atom_match ci a x" using atom_match_nonspace by auto
    with cur Cons show ?thesis by simp
  qed
next
  case WordB
  obtain p xs where cur: "cur = (p, xs)" by (cases cur)
  with WordB show ?case by (cases xs) (auto simp: ws_cursor_def space_not_word)
next
  case (Cat r1 r2)
  show ?case
  proof (cases "needs_nonspace ci r1")
    case True
    with Cat show ?thesis by simp
  next
    case False
    with Cat.prems have n2: "needs_nonspace ci r2" by simp
    have "ends ci r2 c1 = []" if "c1 \<in> set (ends ci r1 cur)" for c1
      using Cat.IH(2)[OF ends_ws_cursor[OF that Cat.prems(1)] n2] .
    then show ?thesis by auto
  qed
next
  case (Alt r1 r2)
  then show ?case by simp
qed simp_all

lemma matchAll_from_ws:
  "ws_cursor (p, xs) \<Longrightarrow> needs_nonspace (ignoreCase re) (source re) \<Longrightarrow>
     matchAll_from re i (p, xs) = []"
proof (induction xs arbitrary: p i)
  case Nil
  then show ?case by (simp add: matchAll_from_nomatch ends_ws)
next
  case (Cons x xs)
  from Cons.prems have "ws_cursor (Some x, xs)"
    by (simp add: ws_cursor_def space_not_word)
  with Cons show ?case by (simp add: matchAll_from_nomatch ends_ws)
qed

lemma matchAll_ws:
  "list_all is_space text \<Longrightarrow> needs_nonspace (ignoreCase re) (source re) \<Longrightarrow>
     matchAll text re = []"
  by (simp add: matchAll_def matchAll_from_ws ws_cursor_def)

lemma split_go_spaces:
  "list_all is_space xs \<Longrightarrow> set (split_go b cur xs) \<subseteq> {[], rev cur}"
proof (induction xs arbitrary: b cur)
  case Nil
  then show ?case by (cases b) simp_all
next
  case (Cons x xs)
  then have "set (split_go True [] xs) \<subseteq> {[]}" by fastforce
  with Cons.prems show ?case by (cases b) auto
qed

lemma wordCount_spaces:
  "list_all is_space text \<Longrightarrow> filter (\<lambda>w. length w > 0) (split_ws text) = []"
  using split_go_spaces[of "text" False "[]"] by (auto simp: split_ws_def filter_empty_conv)

lemma split_go_word:
  "(\<exists>x \<in> set xs. \<not> is_space x) \<or> (\<not> b \<and> cur \<noteq> []) \<Longrightarrow>
     \<exists>w \<in> set (split_go b cur xs). w \<noteq> []"
proof (induction xs arbitrary: b cur)
  case Nil
  then show ?case by (cases b) simp_all
next
  case (Cons x xs)
  show ?case
  proof (cases "is_space x")
    case True
    show ?thesis
    proof (cases "\<exists>y \<in> set xs. \<not> is_space y")
      case ex: True
      then have "\<exists>w \<in> set (split_go True [] xs). w \<noteq> []" using Cons.IH by blast
      with True show ?thesis by (cases b) auto
    next
      case False
      with Cons.prems True have "\<not> b" "cur \<noteq> []" by auto
      with True show ?thesis by simp
    qed
  next
    case False
    have "\<exists>w \<in> set (split_go False (x # cur) xs). w \<noteq> []"
      using Cons.IH[of False "x # cur"] by simp
    moreover have "\<exists>w \<in> set (split_go False [x] xs). w \<noteq> []"
      using Cons.IH[of False "[x]"] by simp
    ultimately show ?thesis using False by (cases b) auto
  qed
qed

lemma wordCount_pos:
  assumes "\<not> list_all is_space text"
  shows "1 \<le> length (filter (\<lambda>w. length w > 0) (split_ws text))"
proof -
  from assms have "\<exists>x \<in> set text. \<not> is_space x" by (simp add: list_all_iff)
  then have "\<exists>w \<in> set (split_ws text). w \<noteq> []"
    unfolding split_ws_def using split_go_word by blast
  then have "filter (\<lambda>w. length w > 0) (split_ws text) \<noteq> []"
    by (auto simp: filter_empty_conv)
  then show ?thesis by (cases "filter (\<lambda>w. length w > 0) (split_ws text)") simp_all
qed

lemmas category_defs =
  inflated_significance_def superficial_ing_def promotional_def ai_vocabulary_def
  vague_attribution_def negative_parallelism_def rule_of_three_def em_dash_def
  copula_avoidance_def sycophantic_def filler_def generic_conclusion_def
  challenges_prospects_def

lemma PATTERNS_needs_nonspace: "list_all (\<lambda>e. category_needs_nonspace (snd e)) PATTERNS"
  by (simp add: PATTERNS_def category_defs category_needs_nonspace_def g_def gi_def seq_def
      lit_def lits_def js_str_def lit_nonspace_def is_space_def canonicalize_def)

lemma PATTERNS_entry_needs_nonspace:
  "e \<in> set PATTERNS \<Longrightarrow> category_needs_nonspace (snd e)"
  using PATTERNS_needs_nonspace by (simp add: list_all_iff)

lemma PATTERNS_keys_distinct: "distinct (map fst PATTERNS)"
  by (simp add: PATTERNS_def)

lemma categoryMatches_spaces:
  assumes "list_all is_space text" "category_needs_nonspace c"
  shows "categoryMatches text c = []"
proof -
  have "patternMatches text re = []" if "re \<in> set (c_patterns c)" for re
    using that assms by (simp add: patternMatches_def matchAll_ws category_needs_nonspace_def
        list_all_iff)
  then show ?thesis by (auto simp: categoryMatches_def)
qed

section \<open>The loop over the catalogue\<close>

lemma obj_set_fresh: "k \<notin> fst ` set kvs \<Longrightarrow> obj_set k v kvs = kvs @ [(k, v)]"
  by (induction kvs) auto

lemma analyze_with_snoc:
  "analyze_with (cs @ [e]) text = analyze_category text (analyze_with cs text) e"
  by (simp add: analyze_with_def)

lemma analyze_with_wordCount:
  "wordCount (analyze_with cs text) = length (filter (\<lambda>w. length w > 0) (split_ws text))"
proof (induction cs rule: rev_induct)
  case Nil
  then show ?case by (simp add: analyze_with_def)
next
  case (snoc e cs)
  then show ?case by (simp add: analyze_with_snoc analyze_category_def Let_def)
qed

lemma analyze_with_totalWeight:
  "totalWeight (analyze_with cs text) =
     sum_list (map (\<lambda>e. c_weight (snd e) * length (categoryMatches text (snd e))) cs)"
proof (induction cs rule: rev_induct)
  case Nil
  then show ?case by (simp add: analyze_with_def)
next
  case (snoc e cs)
  then show ?case by (simp add: analyze_with_snoc analyze_category_def Let_def)
qed

lemma analyze_with_matches:
  "r_matches (analyze_with cs text) =
     concat (map (\<lambda>e. map (tag (c_name (snd e))) (categoryMatches text (snd e))) cs)"
proof (induction cs rule: rev_induct)
  case Nil
  then show ?case by (simp add: analyze_with_def)
next
  case (snoc e cs)
  then show ?case by (simp add: analyze_with_snoc analyze_category_def Let_def)
qed

lemma analyze_with_patterns:
  "distinct (map fst cs) \<Longrightarrow>
   r_patterns (analyze_with cs text) =
     map (\<lambda>e. (fst e, entry_result text (snd e)))
         (filter (\<lambda>e. categoryMatches text (snd e) \<noteq> []) cs)"
proof (induction cs rule: rev_induct)
  case Nil
  then show ?case by (simp add: analyze_with_def)
next
  case (snoc e cs)
  then have IH: "r_patterns (analyze_with cs text) =
     map (\<lambda>e. (fst e, entry_result text (snd e)))
         (filter (\<lambda>e. categoryMatches text (snd e) \<noteq> []) cs)" by simp
  from snoc.prems have "fst e \<notin> fst ` set cs" by auto
  then have fresh: "fst e \<notin> fst ` set (map (\<lambda>e. (fst e, entry_result text (snd e)))
         (filter (\<lambda>e. categoryMatches text (snd e) \<noteq> []) cs))"
    by force
  show ?case
    using obj_set_fresh[OF fresh]
    by (simp add: analyze_with_snoc analyze_category_def Let_def IH entry_result_def)
qed

lemma analyzeText_patterns:
  "r_patterns (analyzeText text) =
     map (\<lambda>e. (fst e, entry_result text (snd e)))
         (filter (\<lambda>e. categoryMatches text (snd e) \<noteq> []) PATTERNS)"
  unfolding analyzeText_def by (rule analyze_with_patterns[OF PATTERNS_keys_distinct])

lemma analyzeText_matches:
  "r_matches (analyzeText text) =
     concat (map (\<lambda>e. map (tag (c_name (snd e))) (categoryMatches text (snd e))) PATTERNS)"
  unfolding analyzeText_def by (rule analyze_with_matches)

lemma analyzeText_wordCount:
  "wordCount (analyzeText text) = length (filter (\<lambda>w. length w > 0) (split_ws text))"
  unfolding analyzeText_def by (rule analyze_with_wordCount)

lemma analyzeText_totalWeight_catalogue:
  "totalWeight (analyzeText text) =
     sum_list (map (\<lambda>e. c_weight (snd e) * length (categoryMatches text (snd e))) PATTERNS)"
  unfolding analyzeText_def by (rule analyze_with_totalWeight)

lemma sum_list_filter_zero:
  fixes g :: "'a \<Rightarrow> nat"
  assumes "\<And>x. x \<in> set xs \<Longrightarrow> \<not> P x \<Longrightarrow> g x = 0"
  shows "sum_list (map g (filter P xs)) = sum_list (map g xs)"
  using assms by (induction xs) auto

lemma analyzeText_totalWeight:
  "totalWeight (analyzeText text) =
     sum_list (map (\<lambda>(k, r). weight r * count r) (r_patterns (analyzeText text)))"
proof -
  let ?g = "\<lambda>e. c_weight (snd e) * length (categoryMatches text (snd e))"
  let ?P = "\<lambda>e. categoryMatches text (snd e) \<noteq> []"
  have "sum_list (map (\<lambda>(k, r). weight r * count r) (r_patterns (analyzeText text)))
        = sum_list (map ?g (filter ?P PATTERNS))"
    unfolding analyzeText_patterns by (simp add: comp_def entry_result_def)
  also have "\<dots> = sum_list (map ?g PATTERNS)"
    by (rule sum_list_filter_zero) simp
  finally show ?thesis
    unfolding analyzeText_def analyze_with_totalWeight by simp
qed

lemma analyze_spaces:
  assumes "list_all is_space text"
  shows "analyzeText text = \<lparr>r_patterns = [], r_matches = [], totalWeight = 0, wordCount = 0\<rparr>"
proof -
  have cm: "categoryMatches text (snd e) = []" if "e \<in> set PATTERNS" for e
    using categoryMatches_spaces[OF assms PATTERNS_entry_needs_nonspace[OF that]] .
  have "r_patterns (analyzeText text) = []"
    unfolding analyzeText_def analyze_with_patterns[OF PATTERNS_keys_distinct]
    using cm by (simp add: filter_empty_conv)
  moreover have "r_matches (analyzeText text) = []"
    unfolding analyzeText_def analyze_with_matches using cm by simp
  moreover have "totalWeight (analyzeText text) = 0"
    unfolding analyzeText_def analyze_with_totalWeight using cm by simp
  moreover have "wordCount (analyzeText text) = 0"
    unfolding analyzeText_def analyze_with_wordCount using wordCount_spaces[OF assms] by simp
  ultimately show ?thesis by (cases "analyzeText text") simp
qed

section \<open>Empty and blank texts\<close>

text \<open>
  Claim C1. The score of every text would be an integer from 0 to 100. For a text with at
  least one word it is (\<open>score_range_nonblank\<close> below); for the empty text the source
  divides 0 by 0 and the score is NaN.
\<close>

theorem empty_text_score: "calculateScore (analyzeText []) = NaN"
  by (simp add: analyze_spaces calculateScore_def)

text \<open>
  Claim C2. For every empty or white-space-only text, \<open>analyzeText\<close> yields word count
  0 and no matches (no category, total weight 0). The claim goes on: the score is then 0
  and the label "Very Human". In the source the division by the word count is not
  guarded: the score is NaN, and since every comparison with NaN is false, the label is
  the last one, "Very AI-like".
\<close>

theorem whitespace_only_text:
  assumes "list_all is_space text"
  shows "wordCount (analyzeText text) = 0 \<and> r_matches (analyzeText text) = []
       \<and> r_patterns (analyzeText text) = [] \<and> totalWeight (analyzeText text) = 0
       \<and> calculateScore (analyzeText text) = NaN
       \<and> getScoreLabel (calculateScore (analyzeText text)) = label_very_ai"
  by (simp add: analyze_spaces[OF assms] calculateScore_def getScoreLabel_def)

text \<open>Claim C2 on a text of a space, a tab and a line feed.\<close>

theorem whitespace_only_text_witness:
  "wordCount (analyzeText [32, 9, 10]) = 0 \<and> r_matches (analyzeText [32, 9, 10]) = []
   \<and> calculateScore (analyzeText [32, 9, 10]) = NaN
   \<and> getScoreLabel (calculateScore (analyzeText [32, 9, 10])) = label_very_ai"
proof -
  have h: "list_all is_space [32, 9, 10]" by (simp add: is_space_def)
  from whitespace_only_text [OF h] show ?thesis by blast
qed

lemma score_range_nonblank:
  assumes "\<not> list_all is_space text"
  shows "\<exists>k::int. 0 \<le> k \<and> k \<le> 100 \<and> calculateScore (analyzeText text) = Fin (of_int k)"
proof -
  have "1 \<le> wordCount (analyzeText text)"
    unfolding analyzeText_def analyze_with_wordCount using assms by (rule wordCount_pos)
  then show ?thesis by (rule calculateScore_range)
qed

section \<open>Aggregation\<close>

text \<open>
  Claim C5. The result of \<open>analyzeText\<close> has an entry for a category exactly when that
  category has at least one match; each entry's \<open>count\<close> is the length of its list of
  matches, which is not empty and is the list of matches of the category of the
  catalogue with that key; and \<open>totalWeight\<close> is the sum, over the entries, of weight
  times count.
\<close>

theorem category_results:
  "(key \<in> fst ` set (r_patterns (analyzeText text)) \<longleftrightarrow>
      (\<exists>cat. (key, cat) \<in> set PATTERNS \<and> categoryMatches text cat \<noteq> []))
   \<and> (\<forall>(k, r) \<in> set (r_patterns (analyzeText text)).
         count r = length (matches r) \<and> matches r \<noteq> [] \<and>
         (\<exists>cat. (k, cat) \<in> set PATTERNS \<and> matches r = categoryMatches text cat
                \<and> weight r = c_weight cat))
   \<and> totalWeight (analyzeText text) =
       sum_list (map (\<lambda>(k, r). weight r * count r) (r_patterns (analyzeText text)))"
proof (intro conjI)
  show "key \<in> fst ` set (r_patterns (analyzeText text)) \<longleftrightarrow>
      (\<exists>cat. (key, cat) \<in> set PATTERNS \<and> categoryMatches text cat \<noteq> [])"
    unfolding analyzeText_patterns by force
next
  show "\<forall>(k, r) \<in> set (r_patterns (analyzeText text)).
         count r = length (matches r) \<and> matches r \<noteq> [] \<and>
         (\<exists>cat. (k, cat) \<in> set PATTERNS \<and> matches r = categoryMatches text cat
                \<and> weight r = c_weight cat)"
    unfolding analyzeText_patterns by (auto simp: entry_result_def)
next
  show "totalWeight (analyzeText text) =
       sum_list (map (\<lambda>(k, r). weight r * count r) (r_patterns (analyzeText text)))"
    by (rule analyzeText_totalWeight)
qed

section \<open>Order of the results\<close>

lemma m_index_record_match: "map m_index (map (record_match text) xs) = map fst xs"
  by (induction xs) auto

lemma patternMatches_sorted: "sorted_wrt (<) (map m_index (patternMatches text re))"
  unfolding patternMatches_def m_index_record_match matchAll_def
  by (rule matchAll_from_sorted)

text \<open>
  Claim C9, amended. \<open>analyzeText\<close> is a function of the text alone (the catalogue is
  never written, and \<open>matchAll\<close> leaves the \<open>lastIndex\<close> of its regular expression
  alone), so two runs on one text give the same result. The order of the result is fixed
  as follows: the entries of \<open>patterns\<close> are those of the categories with a match, in the
  order of the catalogue; \<open>matches\<close> lists the matches category by category in the order
  of the catalogue; within a category the matches are listed pattern by pattern, in the
  order of the patterns; and the matches of one pattern are in strictly increasing
  position. Across the patterns of a category the positions need not increase.
\<close>

theorem result_order:
  "r_patterns (analyzeText text) =
     map (\<lambda>e. (fst e, entry_result text (snd e)))
         (filter (\<lambda>e. categoryMatches text (snd e) \<noteq> []) PATTERNS)
   \<and> r_matches (analyzeText text) =
       concat (map (\<lambda>e. map (tag (c_name (snd e))) (categoryMatches text (snd e))) PATTERNS)
   \<and> matches (entry_result text cat) = concat (map (patternMatches text) (c_patterns cat))
   \<and> sorted_wrt (<) (map m_index (patternMatches text re))"
  using analyzeText_patterns analyzeText_matches patternMatches_sorted
  by (simp add: entry_result_def categoryMatches_def)

section \<open>Context of a match\<close>

lemma getContext_window:
  "getContext (a @ m @ b) (length a) (length m) 40 =
     (if 40 < length a then js_str ''...'' else []) @
     drop (length a - 40) a @ m @ take 40 b @
     (if 40 < length b then js_str ''...'' else [])"
proof -
  let ?t = "a @ m @ b"
  let ?start = "max 0 (int (length a) - int 40)"
  let ?end = "min (int (length ?t)) (int (length a) + int (length m) + int 40)"
  have s: "nat ?start = length a - 40" by simp
  have e: "nat (max (?end - ?start) 0) = min (length ?t) (length a + length m + 40) - (length a - 40)"
    by simp
  have s0: "\<not> ?start < 0" by simp
  have e0: "\<not> ?end < 0" by simp
  have s1: "min ?start (int (length ?t)) = ?start" by simp
  have e1: "min ?end (int (length ?t)) = ?end" by simp
  have "js_slice ?t ?start ?end =
          take (min (length ?t) (length a + length m + 40) - (length a - 40))
               (drop (length a - 40) ?t)"
    by (simp only: js_slice_def Let_def s0 e0 if_False s1 e1 s e)
  also have "\<dots> = drop (length a - 40) a @ m @ take 40 b"
    by (cases "length b \<le> 40") (simp_all add: min_def)
  finally have sl: "js_slice ?t ?start ?end = drop (length a - 40) a @ m @ take 40 b" .
  have c1: "?start > 0 \<longleftrightarrow> 40 < length a" by auto
  have c2: "?end < int (length ?t) \<longleftrightarrow> 40 < length b" by auto
  show ?thesis
    by (simp only: getContext_def Let_def sl c1 c2) simp
qed

lemma patternMatches_context:
  assumes "y \<in> set (patternMatches text re)"
  shows "\<exists>a b. text = a @ m_text y @ b \<and> length a = m_index y
           \<and> m_context y = context_window a (m_text y) b"
proof -
  from assms obtain j m where jm: "(j, m) \<in> set (matchAll text re)"
    and y: "y = record_match text (j, m)"
    unfolding patternMatches_def by auto
  from jm have "(j, m) \<in> set (matchAll_from re 0 (None, text))" by (simp add: matchAll_def)
  from matchAll_from_sub[OF this, of "[]"] obtain a b
    where ab: "text = a @ m @ b" "length a = j" by auto
  have "getContext text j (length m) 40 = context_window a m b"
    unfolding ab(1) ab(2)[symmetric] context_window_def by (rule getContext_window)
  with ab y show ?thesis by auto
qed

lemma categoryMatches_context:
  assumes "y \<in> set (categoryMatches text cat)"
  shows "\<exists>a b. text = a @ m_text y @ b \<and> length a = m_index y
           \<and> m_context y = context_window a (m_text y) b"
  using assms patternMatches_context unfolding categoryMatches_def by auto

text \<open>
  Claim C8, amended. For every match that \<open>analyzeText\<close> records (in \<open>matches\<close> and in
  the entries of \<open>patterns\<close>), the match text stands in the input at the recorded index,
  and the context is the input from 40 code units before the match (or from the start of
  the input, if the match starts earlier than that) to 40 code units after it (or to the
  end of the input), with \<open>...\<close> in front exactly when text before the window is left out,
  that is when more than 40 code units precede the match, and \<open>...\<close> behind exactly when
  text after the window is left out, that is when more than 40 code units follow the
  match. A window that reaches the start (the end) of the document gets no \<open>...\<close> there.
\<close>

theorem context_window_of_match:
  "(x \<in> set (r_matches (analyzeText text)) \<longrightarrow>
      (\<exists>a b. text = a @ m_text x @ b \<and> length a = m_index x
             \<and> m_context x = context_window a (m_text x) b))
   \<and> ((k, r) \<in> set (r_patterns (analyzeText text)) \<and> y \<in> set (matches r) \<longrightarrow>
      (\<exists>a b. text = a @ m_text y @ b \<and> length a = m_index y
             \<and> m_context y = context_window a (m_text y) b))"
proof (intro conjI impI)
  assume "x \<in> set (r_matches (analyzeText text))"
  then obtain e z where "z \<in> set (categoryMatches text (snd e))" "x = tag (c_name (snd e)) z"
    unfolding analyzeText_matches by auto
  with categoryMatches_context[of z "text" "snd e"]
  show "\<exists>a b. text = a @ m_text x @ b \<and> length a = m_index x
             \<and> m_context x = context_window a (m_text x) b"
    by (simp add: tag_def)
next
  assume "(k, r) \<in> set (r_patterns (analyzeText text)) \<and> y \<in> set (matches r)"
  then obtain e where "y \<in> set (categoryMatches text (snd e))"
    unfolding analyzeText_patterns by (auto simp: entry_result_def)
  then show "\<exists>a b. text = a @ m_text y @ b \<and> length a = m_index y
             \<and> m_context y = context_window a (m_text y) b"
    by (rule categoryMatches_context)
qed

section \<open>Monotonicity of the score\<close>

lemma js_round_min_mono:
  fixes x y :: rat
  assumes "x \<le> y"
  shows "js_le (js_min (Fin 100) (js_round (Fin x))) (js_min (Fin 100) (js_round (Fin y)))"
proof -
  from assms have "\<lfloor>x + 1 / 2\<rfloor> \<le> \<lfloor>y + 1 / 2\<rfloor>" by (intro floor_mono) simp
  then have "(of_int \<lfloor>x + 1 / 2\<rfloor> :: rat) \<le> of_int \<lfloor>y + 1 / 2\<rfloor>" by simp
  then show ?thesis by (simp add: min_le_iff_disj)
qed


lemma calculateScore_saturated:
  assumes "1 \<le> wordCount a" "wordCount a \<le> 5 * totalWeight a"
  shows "calculateScore a = Fin 100"
proof -
  let ?x = "(of_nat (totalWeight a) / of_nat (wordCount a) * 100 * 5 :: rat)"
  have "(of_nat (wordCount a) :: rat) \<le> of_nat (5 * totalWeight a)"
    using assms(2) by (rule of_nat_mono)
  then have "(of_nat (wordCount a) :: rat) * 100 \<le> of_nat (totalWeight a) * 500" by simp
  moreover have "(0::rat) < of_nat (wordCount a)" using assms(1) by simp
  ultimately have "100 \<le> ?x" by (simp add: pos_le_divide_eq)
  then have "100 \<le> \<lfloor>?x + 1 / 2\<rfloor>" by (simp add: le_floor_iff)
  then have "(100::rat) \<le> of_int \<lfloor>?x + 1 / 2\<rfloor>" by simp
  then show ?thesis using assms(1) by (simp add: calculateScore_def)
qed

lemma calculateScore_no_matches:
  assumes "1 \<le> wordCount a" "totalWeight a = 0"
  shows "calculateScore a = Fin 0"
  using assms by (simp add: calculateScore_def floor_half)

lemma matched_wordCount:
  assumes "e \<in> set PATTERNS" and "re \<in> set (c_patterns (snd e))"
      and "matchAll t re \<noteq> []"
  shows "1 \<le> wordCount (analyzeText t)"
proof -
  from PATTERNS_entry_needs_nonspace[OF assms(1)] assms(2)
  have "needs_nonspace (ignoreCase re) (source re)"
    by (simp add: category_needs_nonspace_def list_all_iff)
  with assms(3) have "\<not> list_all is_space t" using matchAll_ws by blast
  then show ?thesis
    unfolding analyzeText_wordCount by (rule wordCount_pos)
qed

lemma calculateScore_rounded_exact: "calculateScore_rounded (\<lambda>x. x) a = calculateScore a"
proof -
  have "js_rounded (\<lambda>x. x) y = y" for y by (cases y) simp_all
  then show ?thesis by (simp add: calculateScore_rounded_def calculateScore_def)
qed

lemma calculateScore_rounded_mono:
  assumes rd: "mono rd"
      and "wordCount a = wordCount b" "totalWeight a \<le> totalWeight b" "1 \<le> wordCount a"
  shows "js_le (calculateScore_rounded rd a) (calculateScore_rounded rd b)"
proof -
  let ?q = "\<lambda>a. rd (of_nat (totalWeight a) / of_nat (wordCount a))"
  have "(of_nat (totalWeight a) :: rat) \<le> of_nat (totalWeight b)" using assms(3) by simp
  then have "(of_nat (totalWeight a) / of_nat (wordCount a) :: rat)
              \<le> of_nat (totalWeight b) / of_nat (wordCount b)"
    using assms(2,4) by (simp add: divide_right_mono)
  then have "?q a \<le> ?q b" by (rule monoD[OF rd])
  then have "?q a * 100 \<le> ?q b * 100" by simp
  then have "rd (?q a * 100) \<le> rd (?q b * 100)" by (rule monoD[OF rd])
  then have "rd (?q a * 100) * 5 \<le> rd (?q b * 100) * 5" by simp
  then have "rd (rd (?q a * 100) * 5) \<le> rd (rd (?q b * 100) * 5)" by (rule monoD[OF rd])
  from js_round_min_mono[OF this] assms(2,4) show ?thesis
    by (simp add: calculateScore_rounded_def)
qed


section \<open>A text and the text with more appended\<close>

text \<open>
  Every end of a match in \<open>t\<close> is, at the same index, the end of a match in \<open>t @ a\<close>,
  provided the two texts are not joined inside a word (\<open>ends_lengthen_mem\<close>); and the ends of
  matches in \<open>t @ a\<close> that lie before the last code unit of \<open>t\<close> are the ends of matches
  in \<open>t\<close> that lie there, in the same order (\<open>ends_lengthen_before\<close>).
\<close>

lemma at_cursor_iff:
  "at_cursor t c \<longleftrightarrow> (\<exists>pre. t = pre @ snd c \<and> fst c = last_unit pre)"
proof
  assume "at_cursor t c"
  then have "t = take (length t - length (snd c)) t @ snd c
      \<and> fst c = last_unit (take (length t - length (snd c)) t)"
    unfolding at_cursor_def by (metis append_take_drop_id)
  then show "\<exists>pre. t = pre @ snd c \<and> fst c = last_unit pre" by blast
next
  assume "\<exists>pre. t = pre @ snd c \<and> fst c = last_unit pre"
  then show "at_cursor t c" unfolding at_cursor_def by auto
qed

lemma at_cursor_start: "at_cursor t (None, t)"
  by (simp add: at_cursor_def last_unit_def)

lemma at_cursor_step: "at_cursor t (p, x # xs) \<Longrightarrow> at_cursor t (Some x, xs)"
proof -
  assume "at_cursor t (p, x # xs)"
  then obtain pre where "t = pre @ x # xs" by (auto simp: at_cursor_iff)
  then have "t = (pre @ [x]) @ xs \<and> Some x = last_unit (pre @ [x])"
    by (simp add: last_unit_def)
  then show ?thesis unfolding at_cursor_iff by (metis fst_conv snd_conv)
qed

lemma at_cursor_end: "at_cursor t (p, []) \<Longrightarrow> p = last_unit t"
  by (simp add: at_cursor_def)

lemma ends_at_cursor:
  "c \<in> set (ends ci r cur) \<Longrightarrow> at_cursor t cur \<Longrightarrow> at_cursor t c"
proof (induction ci r cur arbitrary: c rule: ends.induct)
  case (3 ci a p x xs)
  then show ?case by (auto split: if_splits dest: at_cursor_step)
next
  case (4 ci p xs)
  then show ?case by (auto split: if_splits)
next
  case (5 ci r1 r2 cur)
  then obtain c1 where c1: "c1 \<in> set (ends ci r1 cur)" and c: "c \<in> set (ends ci r2 c1)"
    by auto
  from "5.IH"(1)[OF c1 "5.prems"(2)] have "at_cursor t c1" .
  from "5.IH"(2)[OF c1 c this] show ?case .
next
  case (6 ci r1 r2 cur)
  from "6.prems"(1) have "c \<in> set (ends ci r1 cur) \<or> c \<in> set (ends ci r2 cur)" by simp
  then show ?case using "6.IH" "6.prems"(2) by blast
next
  case (7 ci r cur)
  from "7.prems"(1) consider "c = cur"
    | c1 where "c1 \<in> set (ends ci r cur)" "length (snd c1) < length (snd cur)"
        "c \<in> set (ends ci (Star r) c1)"
    by (subst (asm) in_ends_Star) auto
  then show ?case
  proof cases
    case 1
    with "7.prems" show ?thesis by simp
  next
    case 2
    from "7.IH"(1)[OF 2(1) "7.prems"(2)] have "at_cursor t c1" .
    from "7.IH"(2)[OF 2(1) 2(2) 2(3) this] show ?thesis .
  qed
next
  case (8 ci r cur)
  from "8.prems"(1) have "c = cur \<or> c \<in> set (ends ci r cur)" by auto
  then show ?case using "8.IH" "8.prems"(2) by blast
qed simp_all

lemma next_unit_append: "xs \<noteq> [] \<Longrightarrow> next_unit (xs @ a) = next_unit xs"
  by (cases xs) simp_all

lemma ends_lengthen_mem:
  assumes nj: "\<not> word_join t a"
  shows "c \<in> set (ends ci r cur) \<Longrightarrow> at_cursor t cur \<Longrightarrow>
         lengthen a c \<in> set (ends ci r (lengthen a cur))"
proof (induction ci r cur arbitrary: c rule: ends.induct)
  case (1 ci cur)
  then show ?case by simp
next
  case (2 ci a p)
  then show ?case by simp
next
  case (3 ci a' p x xs)
  then show ?case by (auto simp: lengthen_def split: if_splits)
next
  case (4 ci p xs)
  from "4.prems"(1) have c: "c = (p, xs)"
    and b: "is_word_opt p \<noteq> is_word_opt (next_unit xs)" by (auto split: if_splits)
  have "is_word_opt p \<noteq> is_word_opt (next_unit (xs @ a))"
  proof (cases xs)
    case Nil
    with b have w: "is_word_opt p" by simp
    from "4.prems"(2) Nil have "p = last_unit t" by (simp add: at_cursor_end)
    with w nj have "\<not> is_word_opt (next_unit a)" by (simp add: word_join_def)
    with w Nil show ?thesis by simp
  next
    case (Cons y ys)
    with b show ?thesis by simp
  qed
  with c show ?case by (simp add: lengthen_def)
next
  case (5 ci r1 r2 cur)
  then obtain c1 where c1: "c1 \<in> set (ends ci r1 cur)" and c: "c \<in> set (ends ci r2 c1)"
    by auto
  from "5.IH"(1)[OF c1 "5.prems"(2)]
  have e1: "lengthen a c1 \<in> set (ends ci r1 (lengthen a cur))" .
  from "5.IH"(2)[OF c1 c ends_at_cursor[OF c1 "5.prems"(2)]]
  have "lengthen a c \<in> set (ends ci r2 (lengthen a c1))" .
  with e1 show ?case by auto
next
  case (6 ci r1 r2 cur)
  from "6.prems"(1) consider "c \<in> set (ends ci r1 cur)" | "c \<in> set (ends ci r2 cur)" by auto
  then show ?case
  proof cases
    case 1
    from "6.IH"(1)[OF 1 "6.prems"(2)] show ?thesis by simp
  next
    case 2
    from "6.IH"(2)[OF 2 "6.prems"(2)] show ?thesis by simp
  qed
next
  case (7 ci r cur)
  from "7.prems"(1) consider "c = cur"
    | c1 where "c1 \<in> set (ends ci r cur)" "length (snd c1) < length (snd cur)"
        "c \<in> set (ends ci (Star r) c1)"
    by (subst (asm) in_ends_Star) auto
  then show ?case
  proof cases
    case 1
    then show ?thesis by (subst in_ends_Star) simp
  next
    case 2
    from "7.IH"(1)[OF 2(1) "7.prems"(2)]
    have e1: "lengthen a c1 \<in> set (ends ci r (lengthen a cur))" .
    from "7.IH"(2)[OF 2(1) 2(2) 2(3) ends_at_cursor[OF 2(1) "7.prems"(2)]]
    have e2: "lengthen a c \<in> set (ends ci (Star r) (lengthen a c1))" .
    have "length (snd (lengthen a c1)) < length (snd (lengthen a cur))"
      using 2(2) by (simp add: lengthen_def)
    with e1 e2 show ?thesis by (subst in_ends_Star) blast
  qed
next
  case (8 ci r cur)
  from "8.prems"(1) consider "c = cur"
    | "c \<in> set (ends ci r cur)" "length (snd c) < length (snd cur)" by auto
  then show ?case
  proof cases
    case 1
    then show ?thesis by simp
  next
    case 2
    from "8.IH"[OF 2(1) "8.prems"(2)] 2(2) show ?thesis by (simp add: lengthen_def)
  qed
qed

lemma concat_map_filter_skip:
  "(\<And>x. x \<in> set xs \<Longrightarrow> \<not> P x \<Longrightarrow> f x = []) \<Longrightarrow>
     concat (map f xs) = concat (map f (filter P xs))"
  by (induction xs) auto

lemma filter_none: "(\<And>x. x \<in> set xs \<Longrightarrow> \<not> P x) \<Longrightarrow> filter P xs = []"
  by (induction xs) auto

lemma ends_short:
  "length (snd cur) \<le> n \<Longrightarrow> filter (\<lambda>e. n < length (snd e)) (ends ci r cur) = []"
  by (rule filter_none) (use ends_length in fastforce)

lemma ends_lengthen_before:
  "filter (\<lambda>e. length a < length (snd e)) (ends ci r (lengthen a cur)) =
     map (lengthen a) (filter (\<lambda>e. snd e \<noteq> []) (ends ci r cur))"
proof (induction ci r cur rule: ends.induct)
  case (1 ci cur)
  then show ?case by (simp add: lengthen_def)
next
  case (2 ci a' p)
  have "length (snd (lengthen a (p, []))) \<le> length a" by (simp add: lengthen_def)
  from ends_short[OF this] show ?case by simp
next
  case (3 ci a' p x xs)
  then show ?case by (simp add: lengthen_def)
next
  case (4 ci p xs)
  then show ?case by (cases xs) (simp_all add: lengthen_def)
next
  case (5 ci r1 r2 cur)
  let ?P = "\<lambda>e. length a < length (snd e)"
  let ?Q = "\<lambda>e::cursor. snd e \<noteq> []"
  let ?E1 = "ends ci r1 cur"
  let ?E1' = "ends ci r1 (lengthen a cur)"
  have "filter ?P (ends ci (Cat r1 r2) (lengthen a cur))
        = concat (map (\<lambda>e. filter ?P (ends ci r2 e)) ?E1')"
    by (simp add: filter_concat comp_def)
  also have "\<dots> = concat (map (\<lambda>e. filter ?P (ends ci r2 e)) (filter ?P ?E1'))"
    by (rule concat_map_filter_skip) (simp add: ends_short)
  also have "\<dots> = concat (map (\<lambda>e. filter ?P (ends ci r2 (lengthen a e))) (filter ?Q ?E1))"
    by (simp add: "5.IH"(1) comp_def)
  also have "\<dots> = concat (map (\<lambda>e. map (lengthen a) (filter ?Q (ends ci r2 e))) (filter ?Q ?E1))"
    using "5.IH"(2) by (intro arg_cong[where f = concat] map_cong) auto
  also have "\<dots> = map (lengthen a) (concat (map (\<lambda>e. filter ?Q (ends ci r2 e)) (filter ?Q ?E1)))"
    by (simp add: map_concat comp_def)
  also have "concat (map (\<lambda>e. filter ?Q (ends ci r2 e)) (filter ?Q ?E1))
        = concat (map (\<lambda>e. filter ?Q (ends ci r2 e)) ?E1)"
  proof (rule concat_map_filter_skip[symmetric])
    fix x assume "x \<in> set ?E1" "\<not> snd x \<noteq> []"
    then have "length (snd x) \<le> 0" by simp
    then show "filter ?Q (ends ci r2 x) = []"
      by (intro filter_none) (use ends_length in fastforce)
  qed
  also have "\<dots> = filter ?Q (ends ci (Cat r1 r2) cur)"
    by (simp add: filter_concat comp_def)
  finally show ?case .
next
  case (6 ci r1 r2 cur)
  then show ?case by simp
next
  case (7 ci r cur)
  let ?P = "\<lambda>e. length a < length (snd e)"
  let ?Q = "\<lambda>e::cursor. snd e \<noteq> []"
  let ?E1 = "ends ci r cur"
  let ?E1' = "ends ci r (lengthen a cur)"
  let ?g = "\<lambda>c. if length (snd c) < length (snd cur) then ends ci (Star r) c else []"
  let ?g' = "\<lambda>c. if length (snd c) < length (snd (lengthen a cur)) then ends ci (Star r) c else []"
  have "filter ?P (concat (map ?g' ?E1'))
        = concat (map (\<lambda>e. filter ?P (?g' e)) ?E1')"
    by (simp add: filter_concat comp_def)
  also have "\<dots> = concat (map (\<lambda>e. filter ?P (?g' e)) (filter ?P ?E1'))"
    by (rule concat_map_filter_skip) (simp add: ends_short)
  also have "\<dots> = concat (map (\<lambda>e. filter ?P (?g' (lengthen a e))) (filter ?Q ?E1))"
    by (simp add: "7.IH"(1) comp_def)
  also have "\<dots> = concat (map (\<lambda>e. map (lengthen a) (filter ?Q (?g e))) (filter ?Q ?E1))"
    using "7.IH"(2) by (intro arg_cong[where f = concat] map_cong) (auto simp: lengthen_def)
  also have "\<dots> = map (lengthen a) (concat (map (\<lambda>e. filter ?Q (?g e)) (filter ?Q ?E1)))"
    by (simp add: map_concat comp_def)
  also have "concat (map (\<lambda>e. filter ?Q (?g e)) (filter ?Q ?E1))
        = concat (map (\<lambda>e. filter ?Q (?g e)) ?E1)"
  proof (rule concat_map_filter_skip[symmetric])
    fix x assume "x \<in> set ?E1" "\<not> snd x \<noteq> []"
    then have "length (snd x) \<le> 0" by simp
    then have "filter ?Q (ends ci (Star r) x) = []"
      by (intro filter_none) (use ends_length in fastforce)
    then show "filter ?Q (?g x) = []" by simp
  qed
  also have "\<dots> = filter ?Q (concat (map ?g ?E1))"
    by (simp add: filter_concat comp_def)
  finally have main: "filter ?P (concat (map ?g' ?E1')) = map (lengthen a) (filter ?Q (concat (map ?g ?E1)))" .
  have "filter ?P (ends ci (Star r) (lengthen a cur)) = filter ?P (concat (map ?g' ?E1')) @ filter ?P [lengthen a cur]"
    by (subst ends.simps(7)) simp
  moreover have "filter ?Q (ends ci (Star r) cur) = filter ?Q (concat (map ?g ?E1)) @ filter ?Q [cur]"
    by (subst ends.simps(7)) simp
  moreover have "filter ?P [lengthen a cur] = map (lengthen a) (filter ?Q [cur])"
    by (simp add: lengthen_def)
  ultimately show ?case using main by simp
next
  case (8 ci r cur)
  let ?P = "\<lambda>e. length a < length (snd e)"
  let ?Q = "\<lambda>e::cursor. snd e \<noteq> []"
  let ?L = "\<lambda>c::cursor. length (snd c) < length (snd cur)"
  let ?L' = "\<lambda>c::cursor. length (snd c) < length (snd (lengthen a cur))"
  have L: "?L' (lengthen a c) = ?L c" for c by (simp add: lengthen_def)
  have "filter ?P (filter ?L' (ends ci r (lengthen a cur)))
        = filter ?L' (filter ?P (ends ci r (lengthen a cur)))"
    by (simp add: conj_commute)
  also have "\<dots> = filter ?L' (map (lengthen a) (filter ?Q (ends ci r cur)))"
    by (simp only: "8.IH")
  also have "\<dots> = map (lengthen a) (filter ?L (filter ?Q (ends ci r cur)))"
    by (simp only: filter_map comp_def L)
  also have "\<dots> = map (lengthen a) (filter ?Q (filter ?L (ends ci r cur)))"
    by (simp add: conj_commute)
  finally have "filter ?P (filter ?L' (ends ci r (lengthen a cur)))
        = map (lengthen a) (filter ?Q (filter ?L (ends ci r cur)))" .
  moreover have "filter ?P [lengthen a cur] = map (lengthen a) (filter ?Q [cur])"
    by (simp add: lengthen_def)
  ultimately show ?case by (simp only: ends.simps(8) filter_append map_append)
qed

section \<open>Code units consumed by a match\<close>

lemma chr_eq_lit_units: "chr_eq ci c x \<Longrightarrow> x \<in> set (lit_units ci c)"
proof (cases ci)
  case False
  assume "chr_eq ci c x"
  with False show ?thesis by (simp add: chr_eq_def lit_units_def)
next
  case True
  assume a: "chr_eq ci c x"
  with True have k: "canonicalize c = canonicalize x" by (simp add: chr_eq_def)
  show ?thesis
  proof (cases "97 \<le> x \<and> x \<le> 122")
    case l: True
    then have "x = canonicalize x + 32" "65 \<le> canonicalize x" "canonicalize x \<le> 90"
      by (auto simp: canonicalize_def)
    with k True show ?thesis by (simp add: lit_units_def)
  next
    case False
    then have "x = canonicalize x" by (auto simp: canonicalize_def)
    with k True show ?thesis by (simp add: lit_units_def)
  qed
qed

lemma space_canonical: "is_space x \<Longrightarrow> canonicalize x = x"
  by (auto simp: is_space_def canonicalize_def)

lemma atom_within_in:
  "atom_match ci a x \<Longrightarrow> atom_within k ci a \<Longrightarrow> in_class k x"
proof (cases a)
  case (Lit c)
  assume "atom_match ci a x" "atom_within k ci a"
  with Lit show ?thesis using chr_eq_lit_units[of ci c x] by (auto simp: list_all_iff)
next
  case (OneOf cs)
  assume "atom_match ci a x" "atom_within k ci a"
  with OneOf show ?thesis using chr_eq_lit_units[of ci _ x]
    by (auto simp: list_all_iff list_ex_iff)
next
  case WordCh
  assume "atom_match ci a x" "atom_within k ci a"
  with WordCh show ?thesis using space_not_word[of x] by auto
qed simp_all

lemma atom_outside_notin:
  "atom_match ci a x \<Longrightarrow> atom_outside k ci a \<Longrightarrow> \<not> in_class k x"
proof (cases a)
  case (Lit c)
  assume "atom_match ci a x" "atom_outside k ci a"
  with Lit show ?thesis using chr_eq_lit_units[of ci c x] by (auto simp: list_all_iff)
next
  case (OneOf cs)
  assume "atom_match ci a x" "atom_outside k ci a"
  with OneOf show ?thesis using chr_eq_lit_units[of ci _ x]
    by (auto simp: list_all_iff list_ex_iff)
next
  case WordCh
  assume "atom_match ci a x" "atom_outside k ci a"
  with WordCh show ?thesis by (auto simp: is_word_def)
next
  case Space
  assume a: "atom_match ci a x" "atom_outside k ci a"
  with Space have sp: "is_space x" by simp
  show ?thesis
  proof (cases k)
    case NonSpaceC
    with sp show ?thesis by simp
  next
    case StopC
    with sp show ?thesis by (auto simp: is_space_def)
  next
    case WordC
    with sp show ?thesis by (simp add: space_not_word)
  next
    case (LetterC c)
    with a Space have "\<not> is_space (canonicalize c)" by simp
    with sp LetterC show ?thesis using space_canonical[OF sp] by auto
  qed
next
  case (NoneOf cs)
  assume "atom_match ci a x" "atom_outside k ci a"
  with NoneOf show ?thesis by (auto simp: list_ex_iff)
next
  case AnyCh
  assume "atom_outside k ci a"
  with AnyCh show ?thesis by simp
qed

lemma count_in_append [simp]: "count_in k (xs @ ys) = count_in k xs + count_in k ys"
  by (simp add: count_in_def)

lemma count_in_Nil [simp]: "count_in k [] = 0"
  by (simp add: count_in_def)

lemma count_in_single: "count_in k [x] = (if in_class k x then 1 else 0)"
  by (simp add: count_in_def)

lemma res_bounds:
  "c \<in> set (ends ci r cur) \<Longrightarrow>
     \<exists>zs. snd cur = zs @ snd c \<and> res_lo k ci r \<le> count_in k zs
          \<and> (\<forall>h. res_hi k ci r = Some h \<longrightarrow> count_in k zs \<le> h)"
proof (induction ci r cur arbitrary: c rule: ends.induct)
  case (1 ci cur)
  then show ?case by simp
next
  case (2 ci a p)
  then show ?case by simp
next
  case (3 ci a p x xs)
  then have m: "atom_match ci a x" and c: "c = (Some x, xs)" by (auto split: if_splits)
  have "res_lo k ci (Ch a) \<le> count_in k [x]"
    using atom_within_in[OF m] by (auto simp: count_in_single)
  moreover have "count_in k [x] \<le> (if atom_outside k ci a then 0 else 1)"
    using atom_outside_notin[OF m] by (auto simp: count_in_single)
  ultimately show ?case using c by (intro exI[of _ "[x]"]) simp
next
  case (4 ci p xs)
  then show ?case by (auto split: if_splits)
next
  case (5 ci r1 r2 cur)
  then obtain c1 where c1: "c1 \<in> set (ends ci r1 cur)" and c: "c \<in> set (ends ci r2 c1)"
    by auto
  from "5.IH"(1)[OF c1] obtain ys where ys: "snd cur = ys @ snd c1"
    "res_lo k ci r1 \<le> count_in k ys" "\<forall>h. res_hi k ci r1 = Some h \<longrightarrow> count_in k ys \<le> h"
    by blast
  from "5.IH"(2)[OF c1 c] obtain zs where zs: "snd c1 = zs @ snd c"
    "res_lo k ci r2 \<le> count_in k zs" "\<forall>h. res_hi k ci r2 = Some h \<longrightarrow> count_in k zs \<le> h"
    by blast
  have "snd cur = (ys @ zs) @ snd c" using ys(1) zs(1) by simp
  moreover have "res_lo k ci (Cat r1 r2) \<le> count_in k (ys @ zs)" using ys(2) zs(2) by simp
  moreover have "\<forall>h. res_hi k ci (Cat r1 r2) = Some h \<longrightarrow> count_in k (ys @ zs) \<le> h"
    using ys(3) zs(3) by (auto split: option.splits)
  ultimately show ?case by blast
next
  case (6 ci r1 r2 cur)
  from "6.prems" consider "c \<in> set (ends ci r1 cur)" | "c \<in> set (ends ci r2 cur)" by auto
  then show ?case
  proof cases
    case 1
    from "6.IH"(1)[OF 1] show ?thesis by (auto split: option.splits)
  next
    case 2
    from "6.IH"(2)[OF 2] show ?thesis by (auto split: option.splits)
  qed
next
  case (7 ci r cur)
  from "7.prems" consider "c = cur"
    | c1 where "c1 \<in> set (ends ci r cur)" "length (snd c1) < length (snd cur)"
        "c \<in> set (ends ci (Star r) c1)"
    by (subst (asm) in_ends_Star) auto
  then show ?case
  proof cases
    case 1
    then show ?thesis by (intro exI[of _ "[]"]) simp
  next
    case 2
    from "7.IH"(1)[OF 2(1)] obtain ys where ys: "snd cur = ys @ snd c1"
      "\<forall>h. res_hi k ci r = Some h \<longrightarrow> count_in k ys \<le> h" by blast
    from "7.IH"(2)[OF 2(1) 2(2) 2(3)] obtain zs where zs: "snd c1 = zs @ snd c"
      "\<forall>h. res_hi k ci (Star r) = Some h \<longrightarrow> count_in k zs \<le> h" by blast
    have "snd cur = (ys @ zs) @ snd c" using ys(1) zs(1) by simp
    moreover have "\<forall>h. res_hi k ci (Star r) = Some h \<longrightarrow> count_in k (ys @ zs) \<le> h"
      using ys(2) zs(2) by (auto split: if_splits)
    ultimately show ?thesis by (intro exI[of _ "ys @ zs"]) simp
  qed
next
  case (8 ci r cur)
  from "8.prems" consider "c = cur" | "c \<in> set (ends ci r cur)" by auto
  then show ?case
  proof cases
    case 1
    then show ?thesis by (intro exI[of _ "[]"]) simp
  next
    case 2
    from "8.IH"[OF 2] show ?thesis by auto
  qed
qed

lemma matches_resource:
  "res_lo k (ignoreCase re) (source re) * length (matchAll_from re i (p, xs)) \<le> count_in k xs"
proof (induction "length xs" arbitrary: xs p i rule: less_induct)
  case less
  let ?lo = "res_lo k (ignoreCase re) (source re)"
  show ?case
  proof (cases "ends (ignoreCase re) (source re) (p, xs)")
    case Nil
    show ?thesis
    proof (cases xs)
      case xs: Nil
      with Nil show ?thesis by (simp add: matchAll_from_nomatch)
    next
      case xs: (Cons x xs')
      from less.hyps[of xs' "Suc i" "Some x"] xs
      have "?lo * length (matchAll_from re (Suc i) (Some x, xs')) \<le> count_in k xs'" by simp
      also have "\<dots> \<le> count_in k xs" using xs by (simp add: count_in_def)
      finally show ?thesis using Nil xs by (simp add: matchAll_from_nomatch)
    qed
  next
    case (Cons c cs)
    then have "c \<in> set (ends (ignoreCase re) (source re) (p, xs))" by simp
    from res_bounds[OF this, of k] obtain zs where zs: "xs = zs @ snd c" "?lo \<le> count_in k zs"
      by auto
    show ?thesis
    proof (cases "length (snd c) < length xs")
      case True
      from less.hyps[of "snd c" _ "fst c"] True
      have "?lo * length (matchAll_from re (i + (length xs - length (snd c))) c) \<le> count_in k (snd c)"
        by simp
      moreover have "count_in k xs = count_in k zs + count_in k (snd c)"
        by (subst zs(1)) simp
      ultimately show ?thesis using Cons True zs(2) by (simp add: matchAll_from_match)
    next
      case False
      have "length xs = length zs + length (snd c)" by (subst zs(1)) simp
      with False have "zs = []" by simp
      with zs(2) have lo: "?lo = 0" by simp
      then show ?thesis by simp
    qed
  qed
qed

lemma tight_single:
  assumes "tight_in k re"
      and e: "e \<in> set (ends (ignoreCase re) (source re) (p, xs @ a))"
      and len: "length (snd e) \<le> length a"
  shows "length (matchAll_from re i (p, xs)) \<le> 1"
proof -
  let ?lo = "res_lo k (ignoreCase re) (source re)"
  from assms(1) obtain h where h: "res_hi k (ignoreCase re) (source re) = Some h" "h < 2 * ?lo"
    by (auto simp: tight_in_def split: option.splits)
  from res_bounds[OF e, of k] h(1) obtain zs where zs: "xs @ a = zs @ snd e" "count_in k zs \<le> h"
    by auto
  from zs(1) consider us where "xs = zs @ us" "us @ a = snd e"
    | us where "xs @ us = zs" "a = us @ snd e"
    by (auto simp: append_eq_append_conv2)
  then have "\<exists>ws. zs = xs @ ws"
  proof cases
    case 1
    from 1(2) have "length us + length a = length (snd e)" by (metis length_append)
    with len have "length us = 0" by linarith
    then have "us = []" by simp
    with 1(1) show ?thesis by simp
  next
    case 2
    then show ?thesis by auto
  qed
  then have "count_in k xs \<le> count_in k zs" by auto
  with matches_resource[of k re i p xs] zs(2) h(2)
  have "?lo * length (matchAll_from re i (p, xs)) < 2 * ?lo" by linarith
  then show ?thesis by (cases "length (matchAll_from re i (p, xs))") (auto simp: not_less)
qed

section \<open>Matches of a text and of the text with more appended\<close>

text \<open>
  If, whenever the pattern has a match in \<open>t @ a\<close> that starts in \<open>t\<close> and reaches the end
  of \<open>t\<close>, the search in \<open>t\<close> from the same index finds at most one match, then \<open>t @ a\<close>
  has at least as many matches as \<open>t\<close> (\<open>matchAll_from_lengthen_length\<close>): up to such a match
  the two searches find the same matches.
\<close>

lemma matchAll_from_lengthen_nonempty:
  assumes nj: "\<not> word_join t a"
  shows "at_cursor t (p, xs) \<Longrightarrow> matchAll_from re i (p, xs) \<noteq> [] \<Longrightarrow>
         matchAll_from re i' (p, xs @ a) \<noteq> []"
proof (induction xs arbitrary: p i i')
  case Nil
  then have "ends (ignoreCase re) (source re) (p, []) \<noteq> []"
    by (auto simp: matchAll_from_nomatch)
  then obtain c where "c \<in> set (ends (ignoreCase re) (source re) (p, []))"
    by (cases "ends (ignoreCase re) (source re) (p, [])") auto
  from ends_lengthen_mem[OF nj this Nil.prems(1)]
  obtain c' cs where "ends (ignoreCase re) (source re) (p, [] @ a) = c' # cs"
    by (cases "ends (ignoreCase re) (source re) (p, [] @ a)") (auto simp: lengthen_def)
  then show ?case by (simp add: matchAll_from_match)
next
  case (Cons x xs)
  show ?case
  proof (cases "ends (ignoreCase re) (source re) (p, (x # xs) @ a)")
    case c': (Cons c' cs)
    then show ?thesis by (simp add: matchAll_from_match)
  next
    case n': Nil
    have n: "ends (ignoreCase re) (source re) (p, x # xs) = []"
    proof (rule ccontr)
      assume "ends (ignoreCase re) (source re) (p, x # xs) \<noteq> []"
      then obtain c where "c \<in> set (ends (ignoreCase re) (source re) (p, x # xs))"
        by (cases "ends (ignoreCase re) (source re) (p, x # xs)") auto
      from ends_lengthen_mem[OF nj this Cons.prems(1)] n' show False by (simp add: lengthen_def)
    qed
    with Cons.prems(2) have "matchAll_from re (Suc i) (Some x, xs) \<noteq> []"
      by (simp add: matchAll_from_nomatch)
    from Cons.IH[OF at_cursor_step[OF Cons.prems(1)] this]
    have "matchAll_from re (Suc i') (Some x, xs @ a) \<noteq> []" .
    with n' show ?thesis by (simp add: matchAll_from_nomatch)
  qed
qed

lemma matchAll_from_lengthen_length:
  assumes nj: "\<not> word_join t a"
      and single: "\<And>p xs i e. at_cursor t (p, xs) \<Longrightarrow>
             e \<in> set (ends (ignoreCase re) (source re) (p, xs @ a)) \<Longrightarrow>
             length (snd e) \<le> length a \<Longrightarrow> length (matchAll_from re i (p, xs)) \<le> 1"
  shows "at_cursor t (p, xs) \<Longrightarrow>
         length (matchAll_from re i (p, xs)) \<le> length (matchAll_from re i' (p, xs @ a))"
proof (induction "length xs" arbitrary: xs p i i' rule: less_induct)
  case less
  let ?E = "ends (ignoreCase re) (source re) (p, xs)"
  let ?E' = "ends (ignoreCase re) (source re) (p, xs @ a)"
  show ?case
  proof (cases "\<exists>e \<in> set ?E'. length (snd e) \<le> length a")
    case True
    then obtain e where "e \<in> set ?E'" "length (snd e) \<le> length a" by blast
    from single[OF less.prems this] have le: "length (matchAll_from re i (p, xs)) \<le> 1" .
    show ?thesis
    proof (cases "matchAll_from re i (p, xs) = []")
      case True
      then show ?thesis by simp
    next
      case False
      from matchAll_from_lengthen_nonempty[OF nj less.prems False, of i']
      have "1 \<le> length (matchAll_from re i' (p, xs @ a))"
        by (cases "matchAll_from re i' (p, xs @ a)") simp_all
      with le show ?thesis by simp
    qed
  next
    case False
    then have all: "\<And>e. e \<in> set ?E' \<Longrightarrow> length a < length (snd e)" by (auto simp: not_le)
    have Q: "snd e \<noteq> []" if "e \<in> set ?E" for e
    proof
      assume "snd e = []"
      moreover from ends_lengthen_mem[OF nj that less.prems]
      have "lengthen a e \<in> set ?E'" by (simp add: lengthen_def)
      ultimately show False using all[of "lengthen a e"] by (simp add: lengthen_def)
    qed
    have "?E' = filter (\<lambda>e. length a < length (snd e)) ?E'"
      using all by (simp add: filter_id_conv)
    also have "\<dots> = map (lengthen a) (filter (\<lambda>e. snd e \<noteq> []) ?E)"
      using ends_lengthen_before[of a "ignoreCase re" "source re" "(p, xs)"]
      by (simp add: lengthen_def)
    also have "filter (\<lambda>e. snd e \<noteq> []) ?E = ?E" using Q by (simp add: filter_id_conv)
    finally have E': "?E' = map (lengthen a) ?E" .
    show ?thesis
    proof (cases ?E)
      case Nil
      with E' have n': "?E' = []" by simp
      show ?thesis
      proof (cases xs)
        case xs: Nil
        with Nil show ?thesis by (simp add: matchAll_from_nomatch)
      next
        case xs: (Cons x xs')
        from less.prems xs have "at_cursor t (Some x, xs')" by (auto dest: at_cursor_step)
        from less.hyps[OF _ this, of "Suc i" "Suc i'"] xs Nil n' show ?thesis
          by (simp add: matchAll_from_nomatch)
      qed
    next
      case (Cons c cs)
      with E' have c': "?E' = lengthen a c # map (lengthen a) cs" by simp
      from Cons have cin: "c \<in> set ?E" by simp
      from Q[OF cin] have cne: "snd c \<noteq> []" .
      from ends_length[OF cin] have cle: "length (snd c) \<le> length xs" by simp
      from ends_at_cursor[OF cin less.prems] have cat: "at_cursor t (fst c, snd c)" by simp
      show ?thesis
      proof (cases "length (snd c) < length xs")
        case True
        from less.hyps[OF True cat] show ?thesis
          using Cons c' True by (simp add: matchAll_from_match lengthen_def)
      next
        case False
        with cle cne obtain x xs' where xs: "xs = x # xs'" by (cases xs) auto
        from less.prems xs have "at_cursor t (Some x, xs')" by (auto dest: at_cursor_step)
        from less.hyps[OF _ this, of "Suc i" "Suc i'"] xs show ?thesis
          using Cons c' False by (simp add: matchAll_from_match lengthen_def)
      qed
    qed
  qed
qed

lemma matchAll_append_tight:
  assumes "\<not> word_join t a" "tight_in k re"
  shows "length (matchAll t re) \<le> length (matchAll (t @ a) re)"
  unfolding matchAll_def
  by (rule matchAll_from_lengthen_length[OF assms(1) tight_single[OF assms(2)] at_cursor_start])

lemma starts_guarded_ends:
  "starts_guarded ci r \<Longrightarrow> ends ci r (p, xs) \<noteq> [] \<Longrightarrow> is_word_opt p \<Longrightarrow>
     \<not> is_word_opt (next_unit xs)"
proof (induction r arbitrary: p xs)
  case (Ch a)
  then obtain x xs' where xs: "xs = x # xs'" and m: "atom_match ci a x"
    by (cases xs) (auto split: if_splits)
  from atom_outside_notin[OF m, of WordC] Ch.prems(1) xs show ?case by simp
next
  case WordB
  then show ?case by (auto split: if_splits)
next
  case (Cat r1 r2)
  from Cat.prems(2) have "ends ci r1 (p, xs) \<noteq> []" by auto
  with Cat show ?case by simp
next
  case (Alt r1 r2)
  from Alt.prems(2) have "ends ci r1 (p, xs) \<noteq> [] \<or> ends ci r2 (p, xs) \<noteq> []" by auto
  with Alt show ?case by auto
qed simp_all

lemma matchAll_from_found:
  "(j, m) \<in> set (matchAll_from re i (p, xs)) \<Longrightarrow> at_cursor t (p, xs) \<Longrightarrow>
     i + length xs = length t \<Longrightarrow>
     \<exists>q ys. at_cursor t (q, ys) \<and> j + length ys = length t
          \<and> ends (ignoreCase re) (source re) (q, ys) \<noteq> []"
proof (induction "length xs" arbitrary: xs p i rule: less_induct)
  case less
  show ?case
  proof (cases "ends (ignoreCase re) (source re) (p, xs)")
    case Nil
    show ?thesis
    proof (cases xs)
      case xs: Nil
      with Nil less.prems show ?thesis by (simp add: matchAll_from_nomatch)
    next
      case xs: (Cons x xs')
      with Nil less.prems have "(j, m) \<in> set (matchAll_from re (Suc i) (Some x, xs'))"
        by (simp add: matchAll_from_nomatch)
      moreover have "at_cursor t (Some x, xs')" using less.prems(2) xs by (auto dest: at_cursor_step)
      moreover have "Suc i + length xs' = length t" using less.prems(3) xs by simp
      ultimately show ?thesis using less.hyps[of xs' "Suc i" "Some x"] xs by simp
    qed
  next
    case (Cons c cs)
    then have cin: "c \<in> set (ends (ignoreCase re) (source re) (p, xs))" by simp
    from ends_length[OF cin] have cle: "length (snd c) \<le> length xs" by simp
    from less.prems(1) Cons
    consider "j = i" "m = take (length xs - length (snd c)) xs"
      | "length (snd c) < length xs"
        "(j, m) \<in> set (matchAll_from re (i + (length xs - length (snd c))) (fst c, snd c))"
      | x xs' where "xs = x # xs'" "(j, m) \<in> set (matchAll_from re (Suc i) (Some x, xs'))"
      by (auto simp: matchAll_from_match split: if_splits list.splits)
    then show ?thesis
    proof cases
      case 1
      with less.prems cin Cons show ?thesis
        by (intro exI[of _ p] exI[of _ xs]) auto
    next
      case 2
      have "at_cursor t (fst c, snd c)" using ends_at_cursor[OF cin less.prems(2)] by simp
      moreover have "i + (length xs - length (snd c)) + length (snd c) = length t"
        using less.prems(3) cle by simp
      ultimately show ?thesis using less.hyps[OF 2(1) 2(2)] by simp
    next
      case 3
      have "at_cursor t (Some x, xs')" using less.prems(2) 3 by (auto dest: at_cursor_step)
      moreover have "Suc i + length xs' = length t" using less.prems(3) 3 by simp
      ultimately show ?thesis using less.hyps[of xs' "Suc i" "Some x"] 3 by simp
    qed
  qed
qed

lemma at_cursor_position:
  assumes "at_cursor (t @ a) (q, ys)" "length t + length ys = length (t @ a)"
  shows "q = last_unit t \<and> ys = a"
proof -
  from assms(1) obtain pre where pre: "t @ a = pre @ ys" "q = last_unit pre"
    by (auto simp: at_cursor_iff)
  from assms(2) have "length ys = length a" by simp
  with pre(1) have "pre = t \<and> ys = a" by (metis append_eq_append_conv)
  with pre(2) show ?thesis by simp
qed


section \<open>Patterns with a greedy wildcard\<close>

text \<open>
  For a pattern \<open>pre.*post\<close> that satisfies \<open>spans_once\<close>, a match in \<open>t @ a\<close> that reaches
  the end of \<open>t\<close> cannot extend over two matches in \<open>t\<close>: if it did, its \<open>.*\<close> would
  cover the text from the \<open>.*\<close> of the first match to the \<open>post\<close> of the second, so this
  text would be on one line, and the first match, being greedy, would have run on to the
  \<open>post\<close> of the second.
\<close>

lemma concat_map_concat:
  "concat (map f (concat xss)) = concat (map (\<lambda>xs. concat (map f xs)) xss)"
  by (induction xss) auto

lemma ends_seq_append:
  "ends ci (seq (rs @ ss)) c = concat (map (ends ci (seq ss)) (ends ci (seq rs) c))"
proof (induction rs arbitrary: c)
  case Nil
  then show ?case by (simp add: seq_def)
next
  case (Cons r rs)
  have "ends ci (seq ((r # rs) @ ss)) c = concat (map (ends ci (seq (rs @ ss))) (ends ci r c))"
    by (simp add: seq_def)
  also have "\<dots> = concat (map (\<lambda>c1. concat (map (ends ci (seq ss)) (ends ci (seq rs) c1))) (ends ci r c))"
    by (intro arg_cong[where f = concat] map_cong refl Cons.IH)
  also have "\<dots> = concat (map (ends ci (seq ss)) (concat (map (ends ci (seq rs)) (ends ci r c))))"
    by (simp add: concat_map_concat comp_def)
  also have "concat (map (ends ci (seq rs)) (ends ci r c)) = ends ci (seq (r # rs)) c"
    by (simp add: seq_def)
  finally show ?case .
qed

lemma ends_dotted:
  "ends ci (dotted pre post) c =
     concat (map (\<lambda>c1. concat (map (ends ci (seq post)) (ends ci (Star (Ch AnyCh)) c1)))
                 (ends ci (seq pre) c))"
proof -
  have "ends ci (seq (Star (Ch AnyCh) # post)) c1 =
          concat (map (ends ci (seq post)) (ends ci (Star (Ch AnyCh)) c1))" for c1
    by (simp add: seq_def)
  then show ?thesis unfolding dotted_def ends_seq_append by presburger
qed

lemma ends_star_ch_Nil: "ends ci (Star (Ch atm)) (p, []) = [(p, [])]"
  by (subst ends.simps(7)) simp

lemma ends_star_ch_Cons:
  "ends ci (Star (Ch atm)) (p, x # xs) =
     (if atom_match ci atm x then ends ci (Star (Ch atm)) (Some x, xs) else []) @ [(p, x # xs)]"
  by (subst ends.simps(7)) simp

lemma star_ch_mem:
  "d \<in> set (ends ci (Star (Ch atm)) (p, xs)) \<longleftrightarrow>
     (\<exists>zs. xs = zs @ snd d \<and> (\<forall>x \<in> set zs. atom_match ci atm x)
           \<and> fst d = (if zs = [] then p else Some (last zs)))"
proof (induction xs arbitrary: p)
  case Nil
  then show ?case by (cases d) (auto simp: ends_star_ch_Nil)
next
  case (Cons x xs)
  show ?case
  proof
    assume "d \<in> set (ends ci (Star (Ch atm)) (p, x # xs))"
    then consider "d = (p, x # xs)"
      | "atom_match ci atm x" "d \<in> set (ends ci (Star (Ch atm)) (Some x, xs))"
      by (auto simp: ends_star_ch_Cons split: if_splits)
    then show "\<exists>zs. x # xs = zs @ snd d \<and> (\<forall>x \<in> set zs. atom_match ci atm x)
           \<and> fst d = (if zs = [] then p else Some (last zs))"
    proof cases
      case 1
      then show ?thesis by (intro exI[of _ "[]"]) simp
    next
      case 2
      from 2(2) Cons.IH[of "Some x"] obtain zs where zs: "xs = zs @ snd d"
        "\<forall>x \<in> set zs. atom_match ci atm x" "fst d = (if zs = [] then Some x else Some (last zs))"
        by blast
      with 2(1) show ?thesis by (intro exI[of _ "x # zs"]) auto
    qed
  next
    assume "\<exists>zs. x # xs = zs @ snd d \<and> (\<forall>x \<in> set zs. atom_match ci atm x)
           \<and> fst d = (if zs = [] then p else Some (last zs))"
    then obtain zs where zs: "x # xs = zs @ snd d" "\<forall>x \<in> set zs. atom_match ci atm x"
      "fst d = (if zs = [] then p else Some (last zs))" by blast
    show "d \<in> set (ends ci (Star (Ch atm)) (p, x # xs))"
    proof (cases zs)
      case Nil
      with zs have "d = (p, x # xs)" by (cases d) simp
      then show ?thesis by (simp add: ends_star_ch_Cons)
    next
      case (Cons y ys)
      with zs have y: "y = x" "xs = ys @ snd d" "atom_match ci atm x" "\<forall>x \<in> set ys. atom_match ci atm x"
        by auto
      have "fst d = (if ys = [] then Some x else Some (last ys))" using zs(3) Cons y(1) by simp
      with y have "d \<in> set (ends ci (Star (Ch atm)) (Some x, xs))"
        using Cons.IH[of "Some x"] by blast
      with y(3) show ?thesis by (simp add: ends_star_ch_Cons)
    qed
  qed
qed

lemma star_ch_sorted:
  "sorted_wrt (\<lambda>d d'. length (snd d) < length (snd d')) (ends ci (Star (Ch atm)) (p, xs))"
proof (induction xs arbitrary: p)
  case Nil
  then show ?case by (simp add: ends_star_ch_Nil)
next
  case (Cons x xs)
  have "length (snd d) < length (x # xs)" if "d \<in> set (ends ci (Star (Ch atm)) (Some x, xs))" for d
    using ends_length[OF that] by simp
  with Cons show ?case by (auto simp: ends_star_ch_Cons sorted_wrt_append)
qed

lemma concat_map_first:
  "concat (map f xs) = y # ys \<Longrightarrow>
     \<exists>us x vs. xs = us @ x # vs \<and> (\<forall>u \<in> set us. f u = []) \<and> (\<exists>zs. f x = y # zs)"
proof (induction xs)
  case Nil
  then show ?case by simp
next
  case (Cons x xs)
  show ?case
  proof (cases "f x")
    case Nil
    with Cons.prems have "concat (map f xs) = y # ys" by simp
    from Cons.IH[OF this] obtain us x' vs where
      "xs = us @ x' # vs" "\<forall>u \<in> set us. f u = []" "\<exists>zs. f x' = y # zs" by blast
    with Nil show ?thesis by (intro exI[of _ "x # us"] exI[of _ x'] exI[of _ vs]) simp
  next
    case c: (Cons z zs)
    with Cons.prems have "f x = y # zs" by simp
    then show ?thesis by (intro exI[of _ "[]"] exI[of _ x] exI[of _ xs]) simp
  qed
qed

lemma dotted_first:
  assumes "ends ci (dotted pre post) c = f # fs"
  shows "\<exists>a1 b1. a1 \<in> set (ends ci (seq pre) c) \<and> b1 \<in> set (ends ci (Star (Ch AnyCh)) a1)
           \<and> f \<in> set (ends ci (seq post) b1)
           \<and> (\<forall>d \<in> set (ends ci (Star (Ch AnyCh)) a1).
                 ends ci (seq post) d \<noteq> [] \<longrightarrow> length (snd b1) \<le> length (snd d))"
proof -
  let ?F = "\<lambda>c1. concat (map (ends ci (seq post)) (ends ci (Star (Ch AnyCh)) c1))"
  from assms have "concat (map ?F (ends ci (seq pre) c)) = f # fs" by (simp add: ends_dotted)
  from concat_map_first[OF this] obtain us a1 vs zs where
    a1: "ends ci (seq pre) c = us @ a1 # vs" and F: "?F a1 = f # zs" by blast
  from concat_map_first[OF F] obtain gs b1 hs ws where
    b1: "ends ci (Star (Ch AnyCh)) a1 = gs @ b1 # hs"
    and gs: "\<forall>u \<in> set gs. ends ci (seq post) u = []"
    and f: "ends ci (seq post) b1 = f # ws" by blast
  have srt: "sorted_wrt (\<lambda>d d'. length (snd d) < length (snd d')) (gs @ b1 # hs)"
    using star_ch_sorted[of ci AnyCh "fst a1" "snd a1"] b1 by simp
  have "length (snd b1) \<le> length (snd d)"
    if "d \<in> set (ends ci (Star (Ch AnyCh)) a1)" "ends ci (seq post) d \<noteq> []" for d
  proof -
    from that(2) gs have "d \<notin> set gs" by blast
    with that(1) b1 have "d = b1 \<or> d \<in> set hs" by simp
    moreover from srt have "\<forall>h \<in> set hs. length (snd b1) < length (snd h)"
      by (simp add: sorted_wrt_append)
    ultimately show ?thesis by fastforce
  qed
  moreover have "a1 \<in> set (ends ci (seq pre) c)" using a1 by simp
  moreover have "b1 \<in> set (ends ci (Star (Ch AnyCh)) a1)" using b1 by simp
  moreover have "f \<in> set (ends ci (seq post) b1)" using f by simp
  ultimately show ?thesis by blast
qed

lemma dotted_mem:
  "e \<in> set (ends ci (dotted pre post) c) \<longleftrightarrow>
     (\<exists>a1 \<in> set (ends ci (seq pre) c). \<exists>b1 \<in> set (ends ci (Star (Ch AnyCh)) a1).
        e \<in> set (ends ci (seq post) b1))"
  by (simp add: ends_dotted)

lemma zero_width_ends: "c \<in> set (ends ci r cur) \<Longrightarrow> zero_width r \<Longrightarrow> c = cur"
proof (induction r arbitrary: c cur)
  case WordB
  then show ?case by (cases cur) (auto split: if_splits)
next
  case (Cat r1 r2)
  from Cat.prems(1) obtain c1 where c1: "c1 \<in> set (ends ci r1 cur)"
    and c: "c \<in> set (ends ci r2 c1)" by auto
  from Cat.prems(2) have z: "zero_width r1" "zero_width r2" by simp_all
  from Cat.IH(1)[OF c1 z(1)] Cat.IH(2)[OF c z(2)] show ?case by simp
next
  case (Alt r1 r2)
  from Alt.prems(1) consider "c \<in> set (ends ci r1 cur)" | "c \<in> set (ends ci r2 cur)"
    by auto
  then show ?case
  proof cases
    case 1
    from Alt.IH(1)[OF 1] Alt.prems(2) show ?thesis by simp
  next
    case 2
    from Alt.IH(2)[OF 2] Alt.prems(2) show ?thesis by simp
  qed
qed simp_all

lemma starts_within_ends:
  "c \<in> set (ends ci r (p, xs)) \<Longrightarrow> starts_within k ci r \<Longrightarrow>
     \<exists>x xs'. xs = x # xs' \<and> in_class k x \<and> length (snd c) \<le> length xs'"
proof (induction r arbitrary: c p xs)
  case (Ch a)
  then obtain x xs' where xs: "xs = x # xs'" and m: "atom_match ci a x" and c: "c = (Some x, xs')"
    by (cases xs) (auto split: if_splits)
  from atom_within_in[OF m] Ch.prems(2) xs c show ?case by simp
next
  case (Cat r1 r2)
  from Cat.prems(1) obtain c1 where c1: "c1 \<in> set (ends ci r1 (p, xs))"
    and c: "c \<in> set (ends ci r2 c1)" by auto
  show ?case
  proof (cases "starts_within k ci r1")
    case True
    from Cat.IH(1)[OF c1 True] obtain x xs' where
      "xs = x # xs'" "in_class k x" "length (snd c1) \<le> length xs'" by blast
    with ends_length[OF c] show ?thesis by auto
  next
    case False
    with Cat.prems(2) have z: "zero_width r1" and s: "starts_within k ci r2" by auto
    from zero_width_ends[OF c1 z] c have "c \<in> set (ends ci r2 (p, xs))" by simp
    from Cat.IH(2)[OF this s] show ?thesis .
  qed
next
  case (Alt r1 r2)
  from Alt.prems(1) consider "c \<in> set (ends ci r1 (p, xs))" | "c \<in> set (ends ci r2 (p, xs))"
    by auto
  then show ?case
  proof cases
    case 1
    from Alt.IH(1)[OF 1] Alt.prems(2) show ?thesis by simp
  next
    case 2
    from Alt.IH(2)[OF 2] Alt.prems(2) show ?thesis by simp
  qed
qed simp_all

lemma at_cursor_lengthen: "at_cursor t c \<Longrightarrow> at_cursor (t @ a) (lengthen a c)"
proof -
  assume "at_cursor t c"
  then obtain pre where "t = pre @ snd c" "fst c = last_unit pre" by (auto simp: at_cursor_iff)
  then have "t @ a = pre @ snd (lengthen a c) \<and> fst (lengthen a c) = last_unit pre"
    by (simp add: lengthen_def)
  then show ?thesis unfolding at_cursor_iff by blast
qed

lemma append_prefix_len:
  assumes "xs @ a = zs @ e" "length e \<le> length a"
  shows "\<exists>ws. zs = xs @ ws"
proof -
  from assms(1) consider us where "xs = zs @ us" "us @ a = e"
    | us where "xs @ us = zs" "a = us @ e"
    by (auto simp: append_eq_append_conv2)
  then show ?thesis
  proof cases
    case 1
    from 1(2) have "length us + length a = length e" by (metis length_append)
    with assms(2) have "length us = 0" by linarith
    then have "us = []" by simp
    with 1(1) show ?thesis by simp
  next
    case 2
    then show ?thesis by auto
  qed
qed

lemma cursor_split:
  assumes "at_cursor t c1" "at_cursor t c2" "length (snd c2) \<le> length (snd c1)"
  shows "\<exists>zs. snd c1 = zs @ snd c2 \<and> fst c2 = (if zs = [] then fst c1 else Some (last zs))"
proof -
  from assms(1) obtain p1 where p1: "t = p1 @ snd c1" "fst c1 = last_unit p1"
    by (auto simp: at_cursor_iff)
  from assms(2) obtain p2 where p2: "t = p2 @ snd c2" "fst c2 = last_unit p2"
    by (auto simp: at_cursor_iff)
  from p1(1) p2(1) have "p1 @ snd c1 = p2 @ snd c2" by simp
  then consider us where "p1 = p2 @ us" "us @ snd c1 = snd c2"
    | us where "p1 @ us = p2" "snd c1 = us @ snd c2"
    by (auto simp: append_eq_append_conv2)
  then show ?thesis
  proof cases
    case 1
    from 1(2) have "length us + length (snd c1) = length (snd c2)" by (metis length_append)
    with assms(3) have "length us = 0" by linarith
    then have "us = []" by simp
    with 1 p1(2) p2(2) show ?thesis by (intro exI[of _ "[]"]) simp
  next
    case 2
    with p1(2) p2(2) show ?thesis by (intro exI[of _ us]) (auto simp: last_unit_def)
  qed
qed

lemma matchAll_from_first:
  "matchAll_from re i (p, xs) \<noteq> [] \<Longrightarrow> at_cursor t (p, xs) \<Longrightarrow>
     \<exists>s f fs i' jm. at_cursor t s \<and> length (snd s) \<le> length xs
       \<and> ends (ignoreCase re) (source re) s = f # fs
       \<and> (length (snd f) < length (snd s) \<longrightarrow>
            matchAll_from re i (p, xs) = jm # matchAll_from re i' f)"
proof (induction xs arbitrary: p i)
  case Nil
  then obtain f fs where f: "ends (ignoreCase re) (source re) (p, []) = f # fs"
    by (cases "ends (ignoreCase re) (source re) (p, [])") (auto simp: matchAll_from_nomatch)
  from ends_length[of f "ignoreCase re" "source re" "(p, [])"] f
  have "\<not> length (snd f) < length (snd (p, []::jsstring))" by simp
  with Nil.prems(2) f show ?case
    by (intro exI[of _ "(p, [])"] exI[of _ f] exI[of _ fs]) simp
next
  case (Cons x xs)
  show ?case
  proof (cases "ends (ignoreCase re) (source re) (p, x # xs)")
    case Nil
    with Cons.prems(1) have ne: "matchAll_from re (Suc i) (Some x, xs) \<noteq> []"
      and eq: "matchAll_from re i (p, x # xs) = matchAll_from re (Suc i) (Some x, xs)"
      by (simp_all add: matchAll_from_nomatch)
    from Cons.IH[OF ne at_cursor_step[OF Cons.prems(2)]] obtain s f fs i' jm where
      "at_cursor t s" "length (snd s) \<le> length xs"
      "ends (ignoreCase re) (source re) s = f # fs"
      "length (snd f) < length (snd s) \<longrightarrow>
         matchAll_from re (Suc i) (Some x, xs) = jm # matchAll_from re i' f" by blast
    with eq show ?thesis
      by (intro exI[of _ s] exI[of _ f] exI[of _ fs] exI[of _ i'] exI[of _ jm]) simp
  next
    case c: (Cons f fs)
    have "length (snd f) < length (snd (p, x # xs)) \<longrightarrow>
            matchAll_from re i (p, x # xs) =
              (i, take (length (x # xs) - length (snd f)) (x # xs)) #
              matchAll_from re (i + (length (x # xs) - length (snd f))) f"
      using c by (simp add: matchAll_from_match)
    with Cons.prems(2) c show ?thesis
      by (intro exI[of _ "(p, x # xs)"] exI[of _ f] exI[of _ fs]
          exI[of _ "i + (length (x # xs) - length (snd f))"]
          exI[of _ "(i, take (length (x # xs) - length (snd f)) (x # xs))"]) simp
  qed
qed

lemma count_in_Cons: "count_in k (x # xs) = (if in_class k x then 1 else 0) + count_in k xs"
  by (simp add: count_in_def)

lemma dotted_single:
  assumes src: "source re = dotted pre post"
      and ok: "spans_once l (ignoreCase re) pre post"
      and cur: "at_cursor t (p, xs)"
      and e: "e \<in> set (ends (ignoreCase re) (source re) (p, xs @ a))"
      and len: "length (snd e) \<le> length a"
  shows "length (matchAll_from re i (p, xs)) \<le> 1"
proof (rule ccontr)
  assume "\<not> length (matchAll_from re i (p, xs)) \<le> 1"
  then have two: "2 \<le> length (matchAll_from re i (p, xs))" by simp
  let ?ci = "ignoreCase re"
  let ?Pre = "seq pre"
  let ?Post = "seq post"
  let ?G = "Star (Ch AnyCh)"
  let ?kp = "res_lo WordC ?ci ?Pre"
  from ok have exact: "res_hi WordC ?ci ?Pre = Some ?kp"
    and sw: "starts_within WordC ?ci ?Post"
    and sf: "starts_within (LetterC l) ?ci ?Post"
    and one: "res_hi (LetterC l) ?ci ?Post = Some 1"
    by (simp_all add: spans_once_def)
  \<comment> \<open>the first match\<close>
  from two have ne: "matchAll_from re i (p, xs) \<noteq> []" by auto
  from matchAll_from_first[OF ne cur] obtain s1 f1 fs1 i1 jm1 where
    s1: "at_cursor t s1" "length (snd s1) \<le> length xs"
    and f1: "ends ?ci (source re) s1 = f1 # fs1"
    and m1: "length (snd f1) < length (snd s1) \<longrightarrow>
               matchAll_from re i (p, xs) = jm1 # matchAll_from re i1 f1" by blast
  from dotted_first[OF f1[unfolded src]] obtain a1 b1 where
    a1: "a1 \<in> set (ends ?ci ?Pre s1)" and b1: "b1 \<in> set (ends ?ci ?G a1)"
    and f1b: "f1 \<in> set (ends ?ci ?Post b1)"
    and mx: "\<forall>d \<in> set (ends ?ci ?G a1). ends ?ci ?Post d \<noteq> [] \<longrightarrow> length (snd b1) \<le> length (snd d)"
    by blast
  have ca1: "at_cursor t a1" using ends_at_cursor[OF a1 s1(1)] .
  have cb1: "at_cursor t b1" using ends_at_cursor[OF b1 ca1] .
  have cf1: "at_cursor t f1" using ends_at_cursor[OF f1b cb1] .
  from starts_within_ends[OF _ sw, of f1 "fst b1" "snd b1"] f1b obtain y1 w1 where
    b1s: "snd b1 = y1 # w1" "in_class WordC y1" "length (snd f1) \<le> length w1" by auto
  have l1: "length (snd f1) < length (snd b1)" using b1s by simp
  have l2: "length (snd b1) \<le> length (snd a1)" using ends_length[OF b1] .
  have l3: "length (snd a1) \<le> length (snd s1)" using ends_length[OF a1] .
  from m1 l1 l2 l3 have "matchAll_from re i (p, xs) = jm1 # matchAll_from re i1 f1" by simp
  with two have ne2: "matchAll_from re i1 (fst f1, snd f1) \<noteq> []" by auto
  \<comment> \<open>the second match\<close>
  have cf1': "at_cursor t (fst f1, snd f1)" using cf1 by simp
  from matchAll_from_first[OF ne2 cf1'] obtain s2 f2 fs2 where
    s2: "at_cursor t s2" "length (snd s2) \<le> length (snd f1)"
    and f2: "ends ?ci (source re) s2 = f2 # fs2" by blast
  from f2 have "f2 \<in> set (ends ?ci (dotted pre post) s2)" by (simp add: src)
  then obtain a2 b2 where
    a2: "a2 \<in> set (ends ?ci ?Pre s2)" and b2: "b2 \<in> set (ends ?ci ?G a2)"
    and f2b: "f2 \<in> set (ends ?ci ?Post b2)" by (auto simp: dotted_mem)
  have ca2: "at_cursor t a2" using ends_at_cursor[OF a2 s2(1)] .
  have cb2: "at_cursor t b2" using ends_at_cursor[OF b2 ca2] .
  from starts_within_ends[OF _ sf, of f2 "fst b2" "snd b2"] f2b obtain y2 w2 where
    b2s: "snd b2 = y2 # w2" "in_class (LetterC l) y2" by auto
  have l4: "length (snd b2) \<le> length (snd a2)" using ends_length[OF b2] .
  have l5: "length (snd a2) \<le> length (snd s2)" using ends_length[OF a2] .
  have lt: "length (snd b2) < length (snd b1)" using l4 l5 s2(2) l1 by linarith
  \<comment> \<open>the match in the longer text\<close>
  from e have "e \<in> set (ends ?ci (dotted pre post) (p, xs @ a))" by (simp add: src)
  then obtain an bn where
    an: "an \<in> set (ends ?ci ?Pre (p, xs @ a))" and bn: "bn \<in> set (ends ?ci ?G an)"
    and eb: "e \<in> set (ends ?ci ?Post bn)" by (auto simp: dotted_mem)
  have c0': "at_cursor (t @ a) (p, xs @ a)" using at_cursor_lengthen[OF cur, of a]
    by (simp add: lengthen_def)
  have can: "at_cursor (t @ a) an" using ends_at_cursor[OF an c0'] .
  have cbn: "at_cursor (t @ a) bn" using ends_at_cursor[OF bn can] .
  \<comment> \<open>the span of the longer match starts before the end of the first match\<close>
  have A: "length (snd b1) + length a \<le> length (snd an)"
  proof (rule ccontr)
    assume "\<not> length (snd b1) + length a \<le> length (snd an)"
    then have sh: "length (snd an) \<le> length (w1 @ a)" using b1s(1) by simp
    from res_bounds[OF an, of WordC] exact obtain zs where
      zs: "xs @ a = zs @ snd an" "count_in WordC zs \<le> ?kp" by auto
    from cursor_split[OF cur s1(1)] s1(2) obtain u0 where u0: "xs = u0 @ snd s1" by auto
    from res_bounds[OF a1, of WordC] obtain z1 where
      z1: "snd s1 = z1 @ snd a1" "?kp \<le> count_in WordC z1" by auto
    from ends_suffix[OF b1] obtain g1 where g1: "snd a1 = g1 @ snd b1" by auto
    have "(u0 @ z1 @ g1 @ [y1]) @ (w1 @ a) = zs @ snd an"
      using zs(1) u0 z1(1) g1 b1s(1) by simp
    from append_prefix_len[OF this sh] obtain ws where "zs = (u0 @ z1 @ g1 @ [y1]) @ ws" by blast
    then have "count_in WordC z1 + 1 \<le> count_in WordC zs"
      using b1s(2) by (simp add: count_in_Cons)
    with zs(2) z1(2) show False by simp
  qed
  \<comment> \<open>and ends after the start of the tail of the second match\<close>
  have B: "length (snd bn) \<le> length (snd b2) + length a"
  proof (rule ccontr)
    assume "\<not> length (snd bn) \<le> length (snd b2) + length a"
    then have lg: "length (snd (lengthen a b2)) < length (snd bn)" by (simp add: lengthen_def)
    from cursor_split[OF cbn at_cursor_lengthen[OF cb2, of a]] lg obtain u where
      u: "snd bn = u @ snd b2 @ a" by (auto simp: lengthen_def)
    with lg have une: "u \<noteq> []" by (auto simp: lengthen_def)
    from starts_within_ends[OF _ sf, of e "fst bn" "snd bn"] eb obtain x r where
      xr: "snd bn = x # r" "in_class (LetterC l) x" by auto
    from u une xr obtain u' where u': "u = x # u'" by (cases u) auto
    from res_bounds[OF eb, of "LetterC l"] one obtain zs where
      zs: "snd bn = zs @ snd e" "count_in (LetterC l) zs \<le> 1" by auto
    have "(u @ [y2]) @ (w2 @ a) = zs @ snd e" using u b2s(1) zs(1) by simp
    moreover have "length (snd e) \<le> length (w2 @ a)" using len by simp
    ultimately obtain ws where "zs = (u @ [y2]) @ ws" using append_prefix_len by blast
    then have "2 \<le> count_in (LetterC l) zs"
      using u' xr(2) b2s(2) by (simp add: count_in_Cons)
    with zs(2) show False by simp
  qed
  \<comment> \<open>so the text between the two is on one line\<close>
  from star_ch_mem[of bn ?ci AnyCh "fst an" "snd an"] bn obtain zn where
    zn: "snd an = zn @ snd bn" "\<forall>x \<in> set zn. \<not> is_line_terminator x" by auto
  from star_ch_mem[of b1 ?ci AnyCh "fst a1" "snd a1"] b1 obtain g1 where
    g1: "snd a1 = g1 @ snd b1" "\<forall>x \<in> set g1. \<not> is_line_terminator x" by auto
  from cursor_split[OF cb1 cb2] lt obtain sg where sg: "snd b1 = sg @ snd b2" by auto
  from cursor_split[OF can at_cursor_lengthen[OF cb1, of a]] A obtain u1 where
    u1: "snd an = u1 @ snd b1 @ a" by (auto simp: lengthen_def)
  from cursor_split[OF at_cursor_lengthen[OF cb2, of a] cbn] B obtain v where
    v: "snd b2 @ a = v @ snd bn" by (auto simp: lengthen_def)
  have "zn @ snd bn = (u1 @ sg @ v) @ snd bn" using zn(1) u1 sg v by simp
  then have "zn = u1 @ sg @ v" by simp
  with zn(2) have sgl: "\<forall>x \<in> set sg. \<not> is_line_terminator x" by simp
  have "length (snd b2) \<le> length (snd a1)" using lt l2 by simp
  from cursor_split[OF ca1 cb2 this] obtain zz where
    zz: "snd a1 = zz @ snd b2" "fst b2 = (if zz = [] then fst a1 else Some (last zz))" by blast
  from zz(1) g1(1) sg have "zz = g1 @ sg" by simp
  with g1(2) sgl have "\<forall>x \<in> set zz. atom_match ?ci AnyCh x" by auto
  with zz have "b2 \<in> set (ends ?ci ?G (fst a1, snd a1))"
    by (subst star_ch_mem) blast
  then have "b2 \<in> set (ends ?ci ?G a1)" by simp
  moreover have "ends ?ci ?Post b2 \<noteq> []" using f2b by auto
  ultimately have "length (snd b1) \<le> length (snd b2)" using mx by blast
  with lt show False by simp
qed

section \<open>The patterns of the catalogue under appending\<close>

lemmas regex_defs = g_def gi_def seq_def lit_def lits_def js_str_def

lemmas class_defs = tight_def tight_in_def lit_units_def canonicalize_def is_space_def
  is_word_def chr_eq_def

lemma tight_categories:
  "list_all tight (c_patterns inflated_significance)"
  "list_all tight (c_patterns superficial_ing)"
  "list_all tight (c_patterns promotional)"
  "list_all tight (c_patterns ai_vocabulary)"
  "list_all tight (c_patterns vague_attribution)"
  "list_all tight (c_patterns rule_of_three)"
  "list_all tight (c_patterns em_dash)"
  "list_all tight (c_patterns copula_avoidance)"
  "list_all tight (c_patterns sycophantic)"
  "list_all tight (c_patterns filler)"
  "list_all tight (c_patterns generic_conclusion)"
  "list_all tight (c_patterns challenges_prospects)"
  by (simp_all add: category_defs regex_defs class_defs)

lemma negative_parallelism_patterns:
  "c_patterns negative_parallelism =
     [gi (dotted [WordB, lit ''Not'', Plus (Ch Space), lit ''only'', WordB]
                 [WordB, lit ''but'', Plus (Ch Space), Opt (seq [lit ''also'', Plus (Ch Space)])]),
      gi (dotted [WordB, lit ''It'', Opt (lits [39]), lit ''s'', Plus (Ch Space), lit ''not'',
                  Plus (Ch Space), lit ''just'', Plus (Ch Space), lit ''about'', WordB]
                 [WordB, lit ''it'', Opt (lits [39]), lit ''s'', Plus (Ch Space),
                  Opt (seq [lit ''about'', Plus (Ch Space)])]),
      gi (dotted [WordB, lit ''It'', Opt (lits [39]), lit ''s'', Plus (Ch Space), lit ''not'',
                  Plus (Ch Space), alts [lit ''merely'', lit ''simply''], WordB]
                 [WordB, lit ''it'', Opt (lits [39]), lit ''s'', WordB])]"
  by (simp add: negative_parallelism_def dotted_def)

lemma negative_parallelism_spans:
  "spans_once 98 True [WordB, lit ''Not'', Plus (Ch Space), lit ''only'', WordB]
                 [WordB, lit ''but'', Plus (Ch Space), Opt (seq [lit ''also'', Plus (Ch Space)])]"
  "spans_once 105 True [WordB, lit ''It'', Opt (lits [39]), lit ''s'', Plus (Ch Space), lit ''not'',
                  Plus (Ch Space), lit ''just'', Plus (Ch Space), lit ''about'', WordB]
                 [WordB, lit ''it'', Opt (lits [39]), lit ''s'', Plus (Ch Space),
                  Opt (seq [lit ''about'', Plus (Ch Space)])]"
  "spans_once 105 True [WordB, lit ''It'', Opt (lits [39]), lit ''s'', Plus (Ch Space), lit ''not'',
                  Plus (Ch Space), alts [lit ''merely'', lit ''simply''], WordB]
                 [WordB, lit ''it'', Opt (lits [39]), lit ''s'', WordB]"
  by (simp_all add: spans_once_def regex_defs class_defs)

lemma negative_parallelism_dotted:
  assumes "re \<in> set (c_patterns negative_parallelism)"
  shows "\<exists>l pre post. re = gi (dotted pre post) \<and> spans_once l True pre post"
proof -
  from assms[unfolded negative_parallelism_patterns]
  consider
    "re = gi (dotted [WordB, lit ''Not'', Plus (Ch Space), lit ''only'', WordB]
                 [WordB, lit ''but'', Plus (Ch Space), Opt (seq [lit ''also'', Plus (Ch Space)])])"
  | "re = gi (dotted [WordB, lit ''It'', Opt (lits [39]), lit ''s'', Plus (Ch Space), lit ''not'',
                  Plus (Ch Space), lit ''just'', Plus (Ch Space), lit ''about'', WordB]
                 [WordB, lit ''it'', Opt (lits [39]), lit ''s'', Plus (Ch Space),
                  Opt (seq [lit ''about'', Plus (Ch Space)])])"
  | "re = gi (dotted [WordB, lit ''It'', Opt (lits [39]), lit ''s'', Plus (Ch Space), lit ''not'',
                  Plus (Ch Space), alts [lit ''merely'', lit ''simply''], WordB]
                 [WordB, lit ''it'', Opt (lits [39]), lit ''s'', WordB])"
    by auto
  then show ?thesis
  proof cases
    case 1
    with negative_parallelism_spans(1) show ?thesis by blast
  next
    case 2
    with negative_parallelism_spans(2) show ?thesis by blast
  next
    case 3
    with negative_parallelism_spans(3) show ?thesis by blast
  qed
qed

lemma starts_guarded_catalogue:
  "list_all (\<lambda>e. list_all (\<lambda>re. starts_guarded (ignoreCase re) (source re)) (c_patterns (snd e)))
     PATTERNS"
  by (simp add: PATTERNS_def category_defs regex_defs class_defs)

lemma matchAll_append_length:
  assumes e: "e \<in> set PATTERNS" and re: "re \<in> set (c_patterns (snd e))"
      and nj: "\<not> word_join t a"
  shows "length (matchAll t re) \<le> length (matchAll (t @ a) re)"
proof (cases "snd e = negative_parallelism")
  case False
  with e have "list_all tight (c_patterns (snd e))"
    using tight_categories by (auto simp: PATTERNS_def)
  with re have "tight re" by (simp add: list_all_iff)
  then show ?thesis using matchAll_append_tight[OF nj] by (auto simp: tight_def)
next
  case True
  with re have "re \<in> set (c_patterns negative_parallelism)" by simp
  from negative_parallelism_dotted[OF this] obtain l pre post
    where re': "re = gi (dotted pre post)" and ok: "spans_once l True pre post" by blast
  have src: "source re = dotted pre post" and ci: "ignoreCase re = True"
    by (simp_all add: re' gi_def)
  from ok ci have ok': "spans_once l (ignoreCase re) pre post" by simp
  show ?thesis
    unfolding matchAll_def
    by (rule matchAll_from_lengthen_length[OF nj dotted_single[OF src ok'] at_cursor_start])
qed

lemma categoryMatches_length:
  "length (categoryMatches t c) = sum_list (map (\<lambda>re. length (matchAll t re)) (c_patterns c))"
  by (simp add: categoryMatches_def patternMatches_def length_concat comp_def)

lemma totalWeight_append:
  assumes "\<not> word_join t a"
  shows "totalWeight (analyzeText t) \<le> totalWeight (analyzeText (t @ a))"
proof -
  have "length (categoryMatches t (snd e)) \<le> length (categoryMatches (t @ a) (snd e))"
    if "e \<in> set PATTERNS" for e
    unfolding categoryMatches_length
    by (rule sum_list_mono) (rule matchAll_append_length[OF that _ assms])
  then show ?thesis
    unfolding analyzeText_totalWeight_catalogue
    by (intro sum_list_mono mult_le_mono2)
qed

section \<open>Appended occurrences\<close>

lemma occurrence_no_join:
  assumes "(length x, a) \<in> set (matchAll (x @ a @ rest) re)"
      and "starts_guarded (ignoreCase re) (source re)"
  shows "\<not> word_join x a"
proof (cases a)
  case Nil
  then show ?thesis by (simp add: word_join_def)
next
  case (Cons y ys)
  from assms(1) have "(length x, a) \<in> set (matchAll_from re 0 (None, x @ a @ rest))"
    by (simp add: matchAll_def)
  from matchAll_from_found[OF this at_cursor_start] obtain q zs
    where "at_cursor (x @ a @ rest) (q, zs)" "length x + length zs = length (x @ a @ rest)"
      "ends (ignoreCase re) (source re) (q, zs) \<noteq> []" by auto
  with at_cursor_position[of x "a @ rest" q zs]
  have "ends (ignoreCase re) (source re) (last_unit x, a @ rest) \<noteq> []" by simp
  from starts_guarded_ends[OF assms(2) this] Cons show ?thesis by (auto simp: word_join_def)
qed

lemma totalWeight_occurrences:
  assumes e: "e \<in> set PATTERNS" and re: "re \<in> set (c_patterns (snd e))"
  shows "occurrences_at re (t @ concat as @ rest) (length t) as \<Longrightarrow>
         totalWeight (analyzeText t) \<le> totalWeight (analyzeText (t @ concat as))"
proof (induction as arbitrary: t)
  case Nil
  then show ?case by simp
next
  case (Cons a as)
  from starts_guarded_catalogue e re
  have sg: "starts_guarded (ignoreCase re) (source re)" by (simp add: list_all_iff)
  from Cons.prems have m: "(length t, a) \<in> set (matchAll (t @ a @ concat as @ rest) re)"
    and o: "occurrences_at re ((t @ a) @ concat as @ rest) (length (t @ a)) as" by simp_all
  from occurrence_no_join[OF m sg] have "\<not> word_join t a" .
  from totalWeight_append[OF this]
  have "totalWeight (analyzeText t) \<le> totalWeight (analyzeText (t @ a))" .
  also from Cons.IH[OF o]
  have "totalWeight (analyzeText (t @ a)) \<le> totalWeight (analyzeText ((t @ a) @ concat as))" .
  finally show ?case by simp
qed


text \<open>
  The order of the two scores does not depend on the arithmetic being exact: it is the
  same when each operation of \<open>calculateScore\<close> rounds its result, for every rounding
  that is monotone, as rounding to the nearest floating-point number is.
\<close>

lemma appended_score_rounded:
  assumes "mono rd"
      and "(k, cat) \<in> set PATTERNS" and "re \<in> set (c_patterns cat)"
      and "matchAll t re \<noteq> []"
      and "occurrences_at re (t @ concat as) (length t) as"
      and "wordCount (analyzeText (t @ concat as)) = wordCount (analyzeText t)"
  shows "js_le (calculateScore_rounded rd (analyzeText t))
               (calculateScore_rounded rd (analyzeText (t @ concat as)))"
proof -
  from assms(3) have re: "re \<in> set (c_patterns (snd (k, cat)))" by simp
  from totalWeight_occurrences[OF assms(2) re, of t as "[]"] assms(5)
  have tw: "totalWeight (analyzeText t) \<le> totalWeight (analyzeText (t @ concat as))" by simp
  from matched_wordCount[OF assms(2) re assms(4)]
  have pos: "1 \<le> wordCount (analyzeText t)" .
  from calculateScore_rounded_mono[OF assms(1) assms(6)[symmetric] tw pos] show ?thesis .
qed

section \<open>Evaluation on concrete texts\<close>

text \<open>
  Tables of the character functions on the printable ASCII code units, and forms of the
  equation of \<open>matchAll_from\<close> that first compare the code unit at the cursor with the
  literal that a pattern starts with. With them the simplifier runs the analysis of a
  concrete text in reasonable time.
\<close>

lemma of_char_table:
  "of_char CHR '' '' = (32::nat)" "of_char CHR ''!'' = (33::nat)"
  "of_char CHR '','' = (44::nat)" "of_char CHR ''-'' = (45::nat)"
  "of_char CHR ''.'' = (46::nat)" "of_char CHR ''0'' = (48::nat)"
  "of_char CHR ''1'' = (49::nat)" "of_char CHR ''2'' = (50::nat)"
  "of_char CHR ''3'' = (51::nat)" "of_char CHR ''4'' = (52::nat)"
  "of_char CHR ''5'' = (53::nat)" "of_char CHR ''6'' = (54::nat)"
  "of_char CHR ''7'' = (55::nat)" "of_char CHR ''8'' = (56::nat)"
  "of_char CHR ''9'' = (57::nat)" "of_char CHR ''A'' = (65::nat)"
  "of_char CHR ''B'' = (66::nat)" "of_char CHR ''C'' = (67::nat)"
  "of_char CHR ''D'' = (68::nat)" "of_char CHR ''E'' = (69::nat)"
  "of_char CHR ''F'' = (70::nat)" "of_char CHR ''G'' = (71::nat)"
  "of_char CHR ''H'' = (72::nat)" "of_char CHR ''I'' = (73::nat)"
  "of_char CHR ''J'' = (74::nat)" "of_char CHR ''K'' = (75::nat)"
  "of_char CHR ''L'' = (76::nat)" "of_char CHR ''M'' = (77::nat)"
  "of_char CHR ''N'' = (78::nat)" "of_char CHR ''O'' = (79::nat)"
  "of_char CHR ''P'' = (80::nat)" "of_char CHR ''Q'' = (81::nat)"
  "of_char CHR ''R'' = (82::nat)" "of_char CHR ''S'' = (83::nat)"
  "of_char CHR ''T'' = (84::nat)" "of_char CHR ''U'' = (85::nat)"
  "of_char CHR ''V'' = (86::nat)" "of_char CHR ''W'' = (87::nat)"
  "of_char CHR ''X'' = (88::nat)" "of_char CHR ''Y'' = (89::nat)"
  "of_char CHR ''Z'' = (90::nat)" "of_char CHR ''a'' = (97::nat)"
  "of_char CHR ''b'' = (98::nat)" "of_char CHR ''c'' = (99::nat)"
  "of_char CHR ''d'' = (100::nat)" "of_char CHR ''e'' = (101::nat)"
  "of_char CHR ''f'' = (102::nat)" "of_char CHR ''g'' = (103::nat)"
  "of_char CHR ''h'' = (104::nat)" "of_char CHR ''i'' = (105::nat)"
  "of_char CHR ''j'' = (106::nat)" "of_char CHR ''k'' = (107::nat)"
  "of_char CHR ''l'' = (108::nat)" "of_char CHR ''m'' = (109::nat)"
  "of_char CHR ''n'' = (110::nat)" "of_char CHR ''o'' = (111::nat)"
  "of_char CHR ''p'' = (112::nat)" "of_char CHR ''q'' = (113::nat)"
  "of_char CHR ''r'' = (114::nat)" "of_char CHR ''s'' = (115::nat)"
  "of_char CHR ''t'' = (116::nat)" "of_char CHR ''u'' = (117::nat)"
  "of_char CHR ''v'' = (118::nat)" "of_char CHR ''w'' = (119::nat)"
  "of_char CHR ''x'' = (120::nat)" "of_char CHR ''y'' = (121::nat)"
  "of_char CHR ''z'' = (122::nat)"
  by simp_all

lemma is_word_table:
  "is_word 32 = False" "is_word 33 = False" "is_word 34 = False" "is_word 35 = False"
  "is_word 36 = False" "is_word 37 = False" "is_word 38 = False" "is_word 39 = False"
  "is_word 40 = False" "is_word 41 = False" "is_word 42 = False" "is_word 43 = False"
  "is_word 44 = False" "is_word 45 = False" "is_word 46 = False" "is_word 47 = False"
  "is_word 48 = True" "is_word 49 = True" "is_word 50 = True" "is_word 51 = True"
  "is_word 52 = True" "is_word 53 = True" "is_word 54 = True" "is_word 55 = True"
  "is_word 56 = True" "is_word 57 = True" "is_word 58 = False" "is_word 59 = False"
  "is_word 60 = False" "is_word 61 = False" "is_word 62 = False" "is_word 63 = False"
  "is_word 64 = False" "is_word 65 = True" "is_word 66 = True" "is_word 67 = True"
  "is_word 68 = True" "is_word 69 = True" "is_word 70 = True" "is_word 71 = True"
  "is_word 72 = True" "is_word 73 = True" "is_word 74 = True" "is_word 75 = True"
  "is_word 76 = True" "is_word 77 = True" "is_word 78 = True" "is_word 79 = True"
  "is_word 80 = True" "is_word 81 = True" "is_word 82 = True" "is_word 83 = True"
  "is_word 84 = True" "is_word 85 = True" "is_word 86 = True" "is_word 87 = True"
  "is_word 88 = True" "is_word 89 = True" "is_word 90 = True" "is_word 91 = False"
  "is_word 92 = False" "is_word 93 = False" "is_word 94 = False" "is_word 95 = True"
  "is_word 96 = False" "is_word 97 = True" "is_word 98 = True" "is_word 99 = True"
  "is_word 100 = True" "is_word 101 = True" "is_word 102 = True" "is_word 103 = True"
  "is_word 104 = True" "is_word 105 = True" "is_word 106 = True" "is_word 107 = True"
  "is_word 108 = True" "is_word 109 = True" "is_word 110 = True" "is_word 111 = True"
  "is_word 112 = True" "is_word 113 = True" "is_word 114 = True" "is_word 115 = True"
  "is_word 116 = True" "is_word 117 = True" "is_word 118 = True" "is_word 119 = True"
  "is_word 120 = True" "is_word 121 = True" "is_word 122 = True" "is_word 123 = False"
  "is_word 124 = False" "is_word 125 = False" "is_word 126 = False"
  by (simp_all add: is_word_def)

lemma is_space_table:
  "is_space 32 = True" "is_space 33 = False" "is_space 34 = False" "is_space 35 = False"
  "is_space 36 = False" "is_space 37 = False" "is_space 38 = False" "is_space 39 = False"
  "is_space 40 = False" "is_space 41 = False" "is_space 42 = False" "is_space 43 = False"
  "is_space 44 = False" "is_space 45 = False" "is_space 46 = False" "is_space 47 = False"
  "is_space 48 = False" "is_space 49 = False" "is_space 50 = False" "is_space 51 = False"
  "is_space 52 = False" "is_space 53 = False" "is_space 54 = False" "is_space 55 = False"
  "is_space 56 = False" "is_space 57 = False" "is_space 58 = False" "is_space 59 = False"
  "is_space 60 = False" "is_space 61 = False" "is_space 62 = False" "is_space 63 = False"
  "is_space 64 = False" "is_space 65 = False" "is_space 66 = False" "is_space 67 = False"
  "is_space 68 = False" "is_space 69 = False" "is_space 70 = False" "is_space 71 = False"
  "is_space 72 = False" "is_space 73 = False" "is_space 74 = False" "is_space 75 = False"
  "is_space 76 = False" "is_space 77 = False" "is_space 78 = False" "is_space 79 = False"
  "is_space 80 = False" "is_space 81 = False" "is_space 82 = False" "is_space 83 = False"
  "is_space 84 = False" "is_space 85 = False" "is_space 86 = False" "is_space 87 = False"
  "is_space 88 = False" "is_space 89 = False" "is_space 90 = False" "is_space 91 = False"
  "is_space 92 = False" "is_space 93 = False" "is_space 94 = False" "is_space 95 = False"
  "is_space 96 = False" "is_space 97 = False" "is_space 98 = False" "is_space 99 = False"
  "is_space 100 = False" "is_space 101 = False" "is_space 102 = False" "is_space 103 = False"
  "is_space 104 = False" "is_space 105 = False" "is_space 106 = False" "is_space 107 = False"
  "is_space 108 = False" "is_space 109 = False" "is_space 110 = False" "is_space 111 = False"
  "is_space 112 = False" "is_space 113 = False" "is_space 114 = False" "is_space 115 = False"
  "is_space 116 = False" "is_space 117 = False" "is_space 118 = False" "is_space 119 = False"
  "is_space 120 = False" "is_space 121 = False" "is_space 122 = False" "is_space 123 = False"
  "is_space 124 = False" "is_space 125 = False" "is_space 126 = False"
  by (simp_all add: is_space_def)

lemma canonicalize_table:
  "canonicalize 32 = 32" "canonicalize 33 = 33" "canonicalize 34 = 34" "canonicalize 35 = 35"
  "canonicalize 36 = 36" "canonicalize 37 = 37" "canonicalize 38 = 38" "canonicalize 39 = 39"
  "canonicalize 40 = 40" "canonicalize 41 = 41" "canonicalize 42 = 42" "canonicalize 43 = 43"
  "canonicalize 44 = 44" "canonicalize 45 = 45" "canonicalize 46 = 46" "canonicalize 47 = 47"
  "canonicalize 48 = 48" "canonicalize 49 = 49" "canonicalize 50 = 50" "canonicalize 51 = 51"
  "canonicalize 52 = 52" "canonicalize 53 = 53" "canonicalize 54 = 54" "canonicalize 55 = 55"
  "canonicalize 56 = 56" "canonicalize 57 = 57" "canonicalize 58 = 58" "canonicalize 59 = 59"
  "canonicalize 60 = 60" "canonicalize 61 = 61" "canonicalize 62 = 62" "canonicalize 63 = 63"
  "canonicalize 64 = 64" "canonicalize 65 = 65" "canonicalize 66 = 66" "canonicalize 67 = 67"
  "canonicalize 68 = 68" "canonicalize 69 = 69" "canonicalize 70 = 70" "canonicalize 71 = 71"
  "canonicalize 72 = 72" "canonicalize 73 = 73" "canonicalize 74 = 74" "canonicalize 75 = 75"
  "canonicalize 76 = 76" "canonicalize 77 = 77" "canonicalize 78 = 78" "canonicalize 79 = 79"
  "canonicalize 80 = 80" "canonicalize 81 = 81" "canonicalize 82 = 82" "canonicalize 83 = 83"
  "canonicalize 84 = 84" "canonicalize 85 = 85" "canonicalize 86 = 86" "canonicalize 87 = 87"
  "canonicalize 88 = 88" "canonicalize 89 = 89" "canonicalize 90 = 90" "canonicalize 91 = 91"
  "canonicalize 92 = 92" "canonicalize 93 = 93" "canonicalize 94 = 94" "canonicalize 95 = 95"
  "canonicalize 96 = 96" "canonicalize 97 = 65" "canonicalize 98 = 66" "canonicalize 99 = 67"
  "canonicalize 100 = 68" "canonicalize 101 = 69" "canonicalize 102 = 70"
  "canonicalize 103 = 71" "canonicalize 104 = 72" "canonicalize 105 = 73"
  "canonicalize 106 = 74" "canonicalize 107 = 75" "canonicalize 108 = 76"
  "canonicalize 109 = 77" "canonicalize 110 = 78" "canonicalize 111 = 79"
  "canonicalize 112 = 80" "canonicalize 113 = 81" "canonicalize 114 = 82"
  "canonicalize 115 = 83" "canonicalize 116 = 84" "canonicalize 117 = 85"
  "canonicalize 118 = 86" "canonicalize 119 = 87" "canonicalize 120 = 88"
  "canonicalize 121 = 89" "canonicalize 122 = 90" "canonicalize 123 = 123"
  "canonicalize 124 = 124" "canonicalize 125 = 125" "canonicalize 126 = 126"
  by (simp_all add: canonicalize_def)

lemma matchAll_from_skip_word:
  "\<not> chr_eq ci c x \<Longrightarrow>
     matchAll_from \<lparr>source = Cat WordB (Cat (Cat (Ch (Lit c)) r1) r2), ignoreCase = ci\<rparr> i (p, x # xs) =
     matchAll_from \<lparr>source = Cat WordB (Cat (Cat (Ch (Lit c)) r1) r2), ignoreCase = ci\<rparr> (Suc i) (Some x, xs)"
  by (subst matchAll_from_nomatch) simp_all

lemma matchAll_from_hit_word:
  "chr_eq ci c x \<Longrightarrow>
     matchAll_from \<lparr>source = Cat WordB (Cat (Cat (Ch (Lit c)) r1) r2), ignoreCase = ci\<rparr> i (p, x # xs) =
     (case ends ci (Cat WordB (Cat (Cat (Ch (Lit c)) r1) r2)) (p, x # xs) of
        [] \<Rightarrow> matchAll_from \<lparr>source = Cat WordB (Cat (Cat (Ch (Lit c)) r1) r2), ignoreCase = ci\<rparr> (Suc i) (Some x, xs)
      | e # _ \<Rightarrow>
          (i, take (length (x # xs) - length (snd e)) (x # xs)) #
          (if length (snd e) < length (x # xs)
           then matchAll_from \<lparr>source = Cat WordB (Cat (Cat (Ch (Lit c)) r1) r2), ignoreCase = ci\<rparr>
                  (i + (length (x # xs) - length (snd e))) e
           else matchAll_from \<lparr>source = Cat WordB (Cat (Cat (Ch (Lit c)) r1) r2), ignoreCase = ci\<rparr> (Suc i) (Some x, xs)))"
proof (cases "ends ci (Cat WordB (Cat (Cat (Ch (Lit c)) r1) r2)) (p, x # xs)")
  case Nil
  then show ?thesis by (simp add: matchAll_from_nomatch del: ends.simps)
next
  case (Cons e es)
  then show ?thesis by (simp add: matchAll_from_match del: ends.simps)
qed

lemma matchAll_from_skip_seq:
  "\<not> chr_eq ci c x \<Longrightarrow>
     matchAll_from \<lparr>source = Cat (Cat (Ch (Lit c)) r1) r2, ignoreCase = ci\<rparr> i (p, x # xs) =
     matchAll_from \<lparr>source = Cat (Cat (Ch (Lit c)) r1) r2, ignoreCase = ci\<rparr> (Suc i) (Some x, xs)"
  by (subst matchAll_from_nomatch) simp_all

lemma matchAll_from_hit_seq:
  "chr_eq ci c x \<Longrightarrow>
     matchAll_from \<lparr>source = Cat (Cat (Ch (Lit c)) r1) r2, ignoreCase = ci\<rparr> i (p, x # xs) =
     (case ends ci (Cat (Cat (Ch (Lit c)) r1) r2) (p, x # xs) of
        [] \<Rightarrow> matchAll_from \<lparr>source = Cat (Cat (Ch (Lit c)) r1) r2, ignoreCase = ci\<rparr> (Suc i) (Some x, xs)
      | e # _ \<Rightarrow>
          (i, take (length (x # xs) - length (snd e)) (x # xs)) #
          (if length (snd e) < length (x # xs)
           then matchAll_from \<lparr>source = Cat (Cat (Ch (Lit c)) r1) r2, ignoreCase = ci\<rparr>
                  (i + (length (x # xs) - length (snd e))) e
           else matchAll_from \<lparr>source = Cat (Cat (Ch (Lit c)) r1) r2, ignoreCase = ci\<rparr> (Suc i) (Some x, xs)))"
proof (cases "ends ci (Cat (Cat (Ch (Lit c)) r1) r2) (p, x # xs)")
  case Nil
  then show ?thesis by (simp add: matchAll_from_nomatch del: ends.simps)
next
  case (Cons e es)
  then show ?thesis by (simp add: matchAll_from_match del: ends.simps)
qed

lemma matchAll_from_skip_lit:
  "\<not> chr_eq ci c x \<Longrightarrow>
     matchAll_from \<lparr>source = Cat (Ch (Lit c)) r, ignoreCase = ci\<rparr> i (p, x # xs) =
     matchAll_from \<lparr>source = Cat (Ch (Lit c)) r, ignoreCase = ci\<rparr> (Suc i) (Some x, xs)"
  by (subst matchAll_from_nomatch) simp_all

lemma matchAll_from_hit_lit:
  "chr_eq ci c x \<Longrightarrow>
     matchAll_from \<lparr>source = Cat (Ch (Lit c)) r, ignoreCase = ci\<rparr> i (p, x # xs) =
     (case ends ci (Cat (Ch (Lit c)) r) (p, x # xs) of
        [] \<Rightarrow> matchAll_from \<lparr>source = Cat (Ch (Lit c)) r, ignoreCase = ci\<rparr> (Suc i) (Some x, xs)
      | e # _ \<Rightarrow>
          (i, take (length (x # xs) - length (snd e)) (x # xs)) #
          (if length (snd e) < length (x # xs)
           then matchAll_from \<lparr>source = Cat (Ch (Lit c)) r, ignoreCase = ci\<rparr>
                  (i + (length (x # xs) - length (snd e))) e
           else matchAll_from \<lparr>source = Cat (Ch (Lit c)) r, ignoreCase = ci\<rparr> (Suc i) (Some x, xs)))"
proof (cases "ends ci (Cat (Ch (Lit c)) r) (p, x # xs)")
  case Nil
  then show ?thesis by (simp add: matchAll_from_nomatch del: ends.simps)
next
  case (Cons e es)
  then show ?thesis by (simp add: matchAll_from_match del: ends.simps)
qed

lemma matchAll_from_end:
  "matchAll_from re i (p, []) =
     (case ends (ignoreCase re) (source re) (p, []) of [] \<Rightarrow> [] | e # _ \<Rightarrow> [(i, [])])"
  by (subst matchAll_from.simps) (simp split: list.splits)

lemmas matchAll_from_other =
  matchAll_from.simps [where re = "\<lparr>source = Cat WordB (Cat (Alt a b) r), ignoreCase = ci\<rparr>"
    and xs = "x # xs" for a b r ci x xs]
  matchAll_from.simps [where re = "\<lparr>source = Cat WordB (Cat (Cat (Ch WordCh) r1) r2), ignoreCase = ci\<rparr>"
    and xs = "x # xs" for r1 r2 ci x xs]

lemmas eval_simps =
  categoryMatches_def patternMatches_def matchAll_def
  matchAll_from_skip_word matchAll_from_hit_word matchAll_from_skip_seq matchAll_from_hit_seq
  matchAll_from_skip_lit matchAll_from_hit_lit matchAll_from_end matchAll_from_other
  ends.simps(7) g_def gi_def seq_def lit_def lits_def js_str_def of_char_table
  is_word_table is_space_table canonicalize_table is_line_terminator_def chr_eq_def
  getContext_def js_slice_def Let_def split_ws_def

lemmas word_simps = analyzeText_wordCount split_ws_def js_str_def of_char_table is_space_table

lemma category_fields:
  "c_name inflated_significance = ''Inflated Significance''" "c_weight inflated_significance = 3"
  "c_name superficial_ing = ''Superficial -ing Endings''" "c_weight superficial_ing = 2"
  "c_name promotional = ''Promotional Language''" "c_weight promotional = 3"
  "c_name ai_vocabulary = ''AI Vocabulary''" "c_weight ai_vocabulary = 2"
  "c_name vague_attribution = ''Vague Attributions''" "c_weight vague_attribution = 3"
  "c_name negative_parallelism = ''Negative Parallelism''" "c_weight negative_parallelism = 2"
  "c_name rule_of_three = ''Rule of Three''" "c_weight rule_of_three = 1"
  "c_name em_dash = ''Em Dash Overuse''" "c_weight em_dash = 1"
  "c_name copula_avoidance = ''Copula Avoidance''" "c_weight copula_avoidance = 2"
  "c_name sycophantic = ''Sycophantic Tone''" "c_weight sycophantic = 3"
  "c_name filler = ''Filler Phrases''" "c_weight filler = 2"
  "c_name generic_conclusion = ''Generic Conclusions''" "c_weight generic_conclusion = 2"
  "c_name challenges_prospects = ''Challenges & Prospects''" "c_weight challenges_prospects = 2"
  by (simp_all add: category_defs)

lemma ai_vocabulary_description: "c_description ai_vocabulary = ''Words overused by AI models''"
  by (simp add: ai_vocabulary_def)

lemma scenario_cats_1:
  "categoryMatches scenario_text inflated_significance =
     [\<lparr>m_text = js_str ''serves as'', m_index = 31, m_context = js_str ''This groundbreaking innovation serves as a testament to our commitment to excell...''\<rparr>]"
  "categoryMatches scenario_text superficial_ing = []"
  "categoryMatches scenario_text vague_attribution = []"
  by (simp_all add: scenario_text_def inflated_significance_def superficial_ing_def vague_attribution_def eval_simps)

lemma scenario_cats_2:
  "categoryMatches scenario_text promotional =
     [\<lparr>m_text = js_str ''groundbreaking'', m_index = 5, m_context = js_str ''This groundbreaking innovation serves as a testament to our...''\<rparr>,
      \<lparr>m_text = js_str ''commitment to'', m_index = 60, m_context = js_str ''...innovation serves as a testament to our commitment to excellence''\<rparr>]"
  "categoryMatches scenario_text negative_parallelism = []"
  "categoryMatches scenario_text rule_of_three = []"
  "categoryMatches scenario_text em_dash = []"
  by (simp_all add: scenario_text_def promotional_def negative_parallelism_def rule_of_three_def em_dash_def eval_simps)

lemma scenario_cats_3:
  "categoryMatches scenario_text ai_vocabulary =
     [\<lparr>m_text = js_str ''testament'', m_index = 43, m_context = js_str ''...s groundbreaking innovation serves as a testament to our commitment to excellence''\<rparr>]"
  by (simp_all add: scenario_text_def ai_vocabulary_def eval_simps)

lemma scenario_cats_4:
  "categoryMatches scenario_text copula_avoidance =
     [\<lparr>m_text = js_str ''serves as a'', m_index = 31, m_context = js_str ''This groundbreaking innovation serves as a testament to our commitment to excellen...''\<rparr>]"
  "categoryMatches scenario_text sycophantic = []"
  "categoryMatches scenario_text filler = []"
  "categoryMatches scenario_text generic_conclusion = []"
  "categoryMatches scenario_text challenges_prospects = []"
  by (simp_all add: scenario_text_def copula_avoidance_def sycophantic_def filler_def generic_conclusion_def challenges_prospects_def eval_simps)

lemmas scenario_cats = scenario_cats_1 scenario_cats_2 scenario_cats_3 scenario_cats_4

lemma pivot_cats:
  "categoryMatches (js_str ''pivot'') inflated_significance = []"
  "categoryMatches (js_str ''pivot'') superficial_ing = []"
  "categoryMatches (js_str ''pivot'') promotional = []"
  "categoryMatches (js_str ''pivot'') ai_vocabulary =
     [\<lparr>m_text = js_str ''pivot'', m_index = 0, m_context = js_str ''pivot''\<rparr>]"
  "categoryMatches (js_str ''pivot'') vague_attribution = []"
  "categoryMatches (js_str ''pivot'') negative_parallelism = []"
  "categoryMatches (js_str ''pivot'') rule_of_three = []"
  "categoryMatches (js_str ''pivot'') em_dash = []"
  "categoryMatches (js_str ''pivot'') copula_avoidance = []"
  "categoryMatches (js_str ''pivot'') sycophantic = []"
  "categoryMatches (js_str ''pivot'') filler = []"
  "categoryMatches (js_str ''pivot'') generic_conclusion = []"
  "categoryMatches (js_str ''pivot'') challenges_prospects = []"
  by (simp_all add: category_defs eval_simps)

lemma pivot_delve_cats:
  "categoryMatches (js_str ''pivot delve'') inflated_significance = []"
  "categoryMatches (js_str ''pivot delve'') superficial_ing = []"
  "categoryMatches (js_str ''pivot delve'') promotional = []"
  "categoryMatches (js_str ''pivot delve'') ai_vocabulary =
     [\<lparr>m_text = js_str ''delve'', m_index = 6, m_context = js_str ''pivot delve''\<rparr>,
      \<lparr>m_text = js_str ''pivot'', m_index = 0, m_context = js_str ''pivot delve''\<rparr>]"
  "categoryMatches (js_str ''pivot delve'') vague_attribution = []"
  "categoryMatches (js_str ''pivot delve'') negative_parallelism = []"
  "categoryMatches (js_str ''pivot delve'') rule_of_three = []"
  "categoryMatches (js_str ''pivot delve'') em_dash = []"
  "categoryMatches (js_str ''pivot delve'') copula_avoidance = []"
  "categoryMatches (js_str ''pivot delve'') sycophantic = []"
  "categoryMatches (js_str ''pivot delve'') filler = []"
  "categoryMatches (js_str ''pivot delve'') generic_conclusion = []"
  "categoryMatches (js_str ''pivot delve'') challenges_prospects = []"
  by (simp_all add: category_defs eval_simps)










lemma scenario_wordCount: "wordCount (analyzeText scenario_text) = 12"
  by (simp add: scenario_text_def word_simps)

lemma scenario_totalWeight: "totalWeight (analyzeText scenario_text) = 13"
  by (simp add: analyzeText_totalWeight_catalogue PATTERNS_def scenario_cats category_fields)

lemma scenario_patterns:
  "map (\<lambda>(k, r). (k, name r, count r)) (r_patterns (analyzeText scenario_text)) =
     [(''inflated_significance'', ''Inflated Significance'', 1),
      (''promotional'', ''Promotional Language'', 2),
      (''ai_vocabulary'', ''AI Vocabulary'', 1),
      (''copula_avoidance'', ''Copula Avoidance'', 1)]"
  by (simp add: analyzeText_patterns PATTERNS_def scenario_cats category_fields entry_result_def)

section \<open>The scenario of the specification\<close>

text \<open>
  Claim C6. For the text "This groundbreaking innovation serves as a testament to our
  commitment to excellence", \<open>analyzeText\<close> finds matches in the categories Promotional
  Language, Inflated Significance and AI Vocabulary (and in Copula Avoidance, and in no
  other), the weighted total is 13 for 12 words, and the score is 100, which is at least
  50; its label is "Very AI-like".
\<close>

theorem scenario_high_score:
  "map (\<lambda>(k, r). (k, name r, count r)) (r_patterns (analyzeText scenario_text)) =
     [(''inflated_significance'', ''Inflated Significance'', 1),
      (''promotional'', ''Promotional Language'', 2),
      (''ai_vocabulary'', ''AI Vocabulary'', 1),
      (''copula_avoidance'', ''Copula Avoidance'', 1)]
   \<and> totalWeight (analyzeText scenario_text) = 13
   \<and> wordCount (analyzeText scenario_text) = 12
   \<and> calculateScore (analyzeText scenario_text) = Fin 100
   \<and> js_le (Fin 50) (calculateScore (analyzeText scenario_text))
   \<and> getScoreLabel (calculateScore (analyzeText scenario_text)) = label_very_ai"
proof -
  have "calculateScore (analyzeText scenario_text) = Fin 100"
    by (rule calculateScore_saturated) (simp_all add: scenario_wordCount scenario_totalWeight)
  then show ?thesis
    by (simp add: scenario_patterns scenario_wordCount scenario_totalWeight getScoreLabel_def)
qed

section \<open>Witnesses and counterexamples\<close>

text \<open>The aggregation (claim C5) on the text of the scenario.\<close>

theorem category_results_witness:
  "''promotional'' \<in> fst ` set (r_patterns (analyzeText scenario_text))
   \<and> ''filler'' \<notin> fst ` set (r_patterns (analyzeText scenario_text))
   \<and> totalWeight (analyzeText scenario_text) =
       sum_list (map (\<lambda>(k, r). weight r * count r) (r_patterns (analyzeText scenario_text)))
   \<and> totalWeight (analyzeText scenario_text) = 13"
proof -
  have yes: "\<exists>cat. (''promotional'', cat) \<in> set PATTERNS \<and> categoryMatches scenario_text cat \<noteq> []"
    by (intro exI[of _ promotional]) (simp add: PATTERNS_def scenario_cats)
  have no: "\<not> (\<exists>cat. (''filler'', cat) \<in> set PATTERNS \<and> categoryMatches scenario_text cat \<noteq> [])"
    by (auto simp: PATTERNS_def scenario_cats)
  from category_results [of "''promotional''" scenario_text]
    category_results [of "''filler''" scenario_text] yes no scenario_totalWeight
  show ?thesis by blast
qed

text \<open>
  The strings counted as appended occurrences are matches in the text that results. A
  string that the pattern matches on its own need not be one: "pivot" appended directly
  to "pivot" gives one word, "pivotpivot", in which \<open>/\bpivot\b/gi\<close> has no match.
\<close>

lemma glued_word_no_match:
  "matchAll (js_str ''pivot'' @ js_str ''pivot'') (gi (seq [WordB, lit ''pivot'', WordB])) = []"
  by (simp add: eval_simps)


text \<open>
  Claim C8 as it is stated fails: for the text "pivot" the window around the only match
  is clipped to the document at both ends, and the recorded context is "pivot", with no
  \<open>...\<close> on either side.
\<close>

theorem context_counterexample:
  "r_matches (analyzeText (js_str ''pivot'')) =
     [\<lparr>m_text = js_str ''pivot'', m_index = 0, m_context = js_str ''pivot'',
       m_category = ''AI Vocabulary''\<rparr>]
   \<and> spec_context (js_str ''pivot'') 0 5 = js_str ''...pivot...''"
proof
  show "r_matches (analyzeText (js_str ''pivot'')) =
     [\<lparr>m_text = js_str ''pivot'', m_index = 0, m_context = js_str ''pivot'',
       m_category = ''AI Vocabulary''\<rparr>]"
    by (simp add: analyzeText_matches PATTERNS_def pivot_cats category_fields tag_def)
  show "spec_context (js_str ''pivot'') 0 5 = js_str ''...pivot...''"
    by (simp add: spec_context_def js_slice_def js_str_def of_char_table)
qed

text \<open>The amended claim C8 on two matches of the scenario: one has text left out before
  the window, the other after it.\<close>

theorem context_window_of_match_witness:
  "(\<exists>a b. scenario_text = a @ js_str ''commitment to'' @ b \<and> length a = 60
      \<and> js_str ''...innovation serves as a testament to our commitment to excellence''
          = context_window a (js_str ''commitment to'') b)
   \<and> (\<exists>a b. scenario_text = a @ js_str ''groundbreaking'' @ b \<and> length a = 5
      \<and> js_str ''This groundbreaking innovation serves as a testament to our...''
          = context_window a (js_str ''groundbreaking'') b)"
proof -
  let ?x = "\<lparr>m_text = js_str ''commitment to'', m_index = 60,
     m_context = js_str ''...innovation serves as a testament to our commitment to excellence'',
     m_category = ''Promotional Language''\<rparr>"
  let ?y = "\<lparr>m_text = js_str ''groundbreaking'', m_index = 5,
     m_context = js_str ''This groundbreaking innovation serves as a testament to our...''\<rparr>"
  let ?r = "entry_result scenario_text promotional"
  have x: "?x \<in> set (r_matches (analyzeText scenario_text))"
    by (simp add: analyzeText_matches PATTERNS_def scenario_cats category_fields tag_def)
  have r: "(''promotional'', ?r) \<in> set (r_patterns (analyzeText scenario_text))"
    by (simp add: analyzeText_patterns PATTERNS_def scenario_cats)
  have y: "?y \<in> set (matches ?r)"
    by (simp add: entry_result_def scenario_cats)
  from context_window_of_match [of ?x scenario_text "''promotional''" ?r ?y] x r y
  show ?thesis by simp
qed

text \<open>
  Claim C9 as it is stated fails where it orders the matches of a category by position:
  in "pivot delve" the match of \<open>/\bdelve\b/gi\<close> at index 6 is listed before the match of
  the later pattern \<open>/\bpivot\b/gi\<close> at index 0.
\<close>

theorem result_order_counterexample:
  "r_patterns (analyzeText (js_str ''pivot delve'')) =
     [(''ai_vocabulary'',
       \<lparr>name = ''AI Vocabulary'', description = ''Words overused by AI models'',
        matches =
          [\<lparr>m_text = js_str ''delve'', m_index = 6, m_context = js_str ''pivot delve''\<rparr>,
           \<lparr>m_text = js_str ''pivot'', m_index = 0, m_context = js_str ''pivot delve''\<rparr>],
        weight = 2, count = 2\<rparr>)]
   \<and> \<not> sorted (map m_index
          [\<lparr>m_text = js_str ''delve'', m_index = 6, m_context = js_str ''pivot delve''\<rparr>,
           \<lparr>m_text = js_str ''pivot'', m_index = 0, m_context = js_str ''pivot delve''\<rparr>])"
  by (simp add: analyzeText_patterns PATTERNS_def pivot_delve_cats category_fields
      ai_vocabulary_description entry_result_def)

end
